theory Spec2Isabelle
  imports Complex_Main
begin

text \<open>
  A verification development for the arithmetic task server of main.go: clients submit
  expressions to \<^verbatim>\<open>/tasks/add\<close>, three agents take them from a buffered channel and evaluate
  them with a two-stack evaluator, and clients poll \<^verbatim>\<open>/tasks/{id}/result\<close>. The first part
  models the evaluator, the second the tasks, the handlers and the agents. The repository
  holds a second program, a variant of main.go with the two further routes
  \<^verbatim>\<open>/tasks/execute\<close> and \<^verbatim>\<open>/tasks/result\<close>; the specification describes the four routes of
  main.go, which is the program modelled here. The two programs have the same
  \<^verbatim>\<open>evaluateExpression\<close>, \<^verbatim>\<open>addTaskHandler\<close> and \<^verbatim>\<open>startAgents\<close> up to time stamps.
\<close>

section \<open>The expression evaluator of main.go\<close>

text \<open>
  \<^verbatim>\<open>evaluateExpression\<close> walks over the runes of the expression (\<^verbatim>\<open>for _, char := range
  expression\<close>). A rune is a Unicode code point; it is modelled by its number, so
  \<open>'+'\<close> is 43, \<open>'('\<close> is 40 and the digits are 48 to 57. An ASCII literal is turned
  into its runes by \<open>runes\<close>.
\<close>

type_synonym rune = nat

definition runes :: "string \<Rightarrow> rune list" where
  "runes s = map of_char s"

text \<open>
  The operands are \<^verbatim>\<open>float64\<close> values. The evaluator uses five things of that type: the
  value of a decimal digit (what \<^verbatim>\<open>strconv.ParseFloat\<close> returns for a one-digit string)
  and the four operations \<^verbatim>\<open>a + b\<close>, \<open>a - b\<close>, \<open>a * b\<close>, \<open>a / b\<close>. They are
  parameters of the model, so that what is proved about the evaluator holds for whatever
  IEEE arithmetic computes (rounding, infinities and not-a-number included).
  The zero value of \<^verbatim>\<open>var result float64\<close> and the value \<^verbatim>\<open>ParseFloat\<close> returns next
  to a syntax error are both \<open>+0\<close>, the value of the digit 0. A sixth parameter tells the
  finite values from the infinities and not-a-number: the JSON encoder needs it when a
  result is sent to a client.
\<close>

record 'a float64_ops =
  f64_digit :: "nat \<Rightarrow> 'a"
  f64_add :: "'a \<Rightarrow> 'a \<Rightarrow> 'a"
  f64_sub :: "'a \<Rightarrow> 'a \<Rightarrow> 'a"
  f64_mul :: "'a \<Rightarrow> 'a \<Rightarrow> 'a"
  f64_quo :: "'a \<Rightarrow> 'a \<Rightarrow> 'a"
  f64_finite :: "'a \<Rightarrow> bool"

text \<open>
  Exact arithmetic on the reals: it agrees with \<^verbatim>\<open>float64\<close> wherever the \<^verbatim>\<open>float64\<close>
  operation is exact and no divisor is zero, as in the small integer examples below.
\<close>

definition exact_ops :: "real float64_ops" where
  "exact_ops = \<lparr> f64_digit = real, f64_add = (+), f64_sub = (-), f64_mul = (*), f64_quo = (/),
                 f64_finite = (\<lambda>x. True) \<rparr>"

text \<open>The two stacks are Go slices that grow and shrink at the end: the top is the last element.\<close>

record 'a stacks =
  operandStack :: "'a list"
  operatorStack :: "rune list"

text \<open>
  \<^verbatim>\<open>strconv.ParseFloat(string(char), 64)\<close> on a string of one rune: a decimal digit parses to
  its value; every other one-rune string is a syntax error, for which the function returns
  0 and the error. The flag is \<open>True\<close> when there is no error.
\<close>

definition parseFloat :: "'a float64_ops \<Rightarrow> rune \<Rightarrow> 'a \<times> bool" where
  "parseFloat F char =
     (if 48 \<le> char \<and> char \<le> 57 then (f64_digit F (char - 48), True)
      else (f64_digit F 0, False))"

text \<open>The closure \<^verbatim>\<open>performOperation\<close> (the sleeps take time and change no value).\<close>

definition performOperation :: "'a float64_ops \<Rightarrow> 'a stacks \<Rightarrow> 'a stacks" where
  "performOperation F s =
     (if length (operandStack s) < 2 \<or> length (operatorStack s) = 0 then s
      else
        let b = last (operandStack s);
            operands1 = butlast (operandStack s);
            a = last operands1;
            operands2 = butlast operands1;
            op = last (operatorStack s);
            operators1 = butlast (operatorStack s);
            result =
              (if op = 43 then f64_add F a b
               else if op = 45 then f64_sub F a b
               else if op = 42 then f64_mul F a b
               else if op = 47 then f64_quo F a b
               else f64_digit F 0)
        in \<lparr> operandStack = operands2 @ [result], operatorStack = operators1 \<rparr>)"

text \<open>
  The four loops \<^verbatim>\<open>for len(operatorStack) > 0 && cond(top) { performOperation() }\<close> differ in
  the condition on the top operator only. Such a loop need not end: \<^verbatim>\<open>performOperation\<close>
  returns without a change when fewer than two operands are there. \<open>None\<close> is a loop that
  runs forever.
\<close>

partial_function (option) reduceWhile ::
  "'a float64_ops \<Rightarrow> (rune \<Rightarrow> bool) \<Rightarrow> 'a stacks \<Rightarrow> 'a stacks option" where
  "reduceWhile F cond s =
     (if length (operatorStack s) > 0 \<and> cond (last (operatorStack s))
      then reduceWhile F cond (performOperation F s)
      else Some s)"

definition notOpenParen :: "rune \<Rightarrow> bool" where
  "notOpenParen op = (op \<noteq> 40)"

definition anyOperator :: "rune \<Rightarrow> bool" where
  "anyOperator op = (op = 43 \<or> op = 45 \<or> op = 42 \<or> op = 47)"

definition mulOrDiv :: "rune \<Rightarrow> bool" where
  "mulOrDiv op = (op = 42 \<or> op = 47)"

definition anything :: "rune \<Rightarrow> bool" where
  "anything op = True"

text \<open>The body of the loop over the runes: the \<^verbatim>\<open>switch char\<close>.\<close>

definition scanRune :: "'a float64_ops \<Rightarrow> rune \<Rightarrow> 'a stacks \<Rightarrow> 'a stacks option" where
  "scanRune F char s =
     (if char = 40 then Some (s\<lparr> operatorStack := operatorStack s @ [char] \<rparr>)
      else if char = 41 then
        (case reduceWhile F notOpenParen s of
           None \<Rightarrow> None
         | Some s1 \<Rightarrow>
             if length (operatorStack s1) > 0 \<and> last (operatorStack s1) = 40
             then Some (s1\<lparr> operatorStack := butlast (operatorStack s1) \<rparr>)
             else Some s1)
      else if char = 43 \<or> char = 45 then
        (case reduceWhile F anyOperator s of
           None \<Rightarrow> None
         | Some s1 \<Rightarrow> Some (s1\<lparr> operatorStack := operatorStack s1 @ [char] \<rparr>))
      else if char = 42 \<or> char = 47 then
        (case reduceWhile F mulOrDiv s of
           None \<Rightarrow> None
         | Some s1 \<Rightarrow> Some (s1\<lparr> operatorStack := operatorStack s1 @ [char] \<rparr>))
      else
        (let operand = fst (parseFloat F char)
         in Some (s\<lparr> operandStack := operandStack s @ [operand] \<rparr>)))"

fun scanRunes :: "'a float64_ops \<Rightarrow> rune list \<Rightarrow> 'a stacks \<Rightarrow> 'a stacks option" where
  "scanRunes F [] s = Some s"
| "scanRunes F (char # rest) s =
     (case scanRune F char s of None \<Rightarrow> None | Some s1 \<Rightarrow> scanRunes F rest s1)"

text \<open>
  What a call of \<^verbatim>\<open>evaluateExpression\<close> does when it ends: it returns a number, or the index
  expression \<^verbatim>\<open>operandStack[0]\<close> panics on an empty slice.
\<close>

datatype 'a outcome = Returns 'a | IndexOutOfRange

definition removeSpaces :: "rune list \<Rightarrow> rune list" where
  "removeSpaces expression = filter (\<lambda>char. char \<noteq> 32) expression"

definition evaluateExpression :: "'a float64_ops \<Rightarrow> rune list \<Rightarrow> 'a outcome option" where
  "evaluateExpression F expression =
     (case scanRunes F (removeSpaces expression)
             \<lparr> operandStack = [], operatorStack = [] \<rparr> of
        None \<Rightarrow> None
      | Some s1 \<Rightarrow>
          (case reduceWhile F anything s1 of
             None \<Rightarrow> None
           | Some s2 \<Rightarrow>
               (case operandStack s2 of
                  [] \<Rightarrow> Some IndexOutOfRange
                | v # _ \<Rightarrow> Some (Returns v))))"

text \<open>The \<^verbatim>\<open>switch op\<close> of \<^verbatim>\<open>performOperation\<close> on its own, for stating results.\<close>

definition applyOperator :: "'a float64_ops \<Rightarrow> rune \<Rightarrow> 'a \<Rightarrow> 'a \<Rightarrow> 'a" where
  "applyOperator F op a b =
     (if op = 43 then f64_add F a b
      else if op = 45 then f64_sub F a b
      else if op = 42 then f64_mul F a b
      else if op = 47 then f64_quo F a b
      else f64_digit F 0)"


subsection \<open>The grammar of the specification\<close>

text \<open>
  The specification describes the input by its grammar: single decimal digits, the four
  binary operators and balanced parentheses, where \<open>*\<close> and \<open>/\<close> bind tighter than \<open>+\<close> and
  \<open>-\<close>, operators of equal precedence associate to the left, and parentheses override
  precedence. The three syntactic classes are
  \<^verbatim>\<open>expression ::= product | expression + product | expression - product\<close>,
  \<^verbatim>\<open>product ::= factor | product * factor | product / factor\<close> and
  \<^verbatim>\<open>factor ::= digit | ( expression )\<close>.
  \<open>render_expression\<close> writes a tree as the runes of its text, and
  \<open>spec_value_expression\<close> is the value the specification gives to it. These definitions
  follow the words of the specification, not the code.
\<close>

datatype factor = Digit nat | Paren expression
and product = Factor factor | Times product factor | Over product factor
and expression = Product product | Plus expression product | Minus expression product

primrec render_factor :: "factor \<Rightarrow> rune list"
  and render_product :: "product \<Rightarrow> rune list"
  and render_expression :: "expression \<Rightarrow> rune list" where
  "render_factor (Digit d) = [48 + d]"
| "render_factor (Paren e) = 40 # render_expression e @ [41]"
| "render_product (Factor f) = render_factor f"
| "render_product (Times p f) = render_product p @ 42 # render_factor f"
| "render_product (Over p f) = render_product p @ 47 # render_factor f"
| "render_expression (Product p) = render_product p"
| "render_expression (Plus e p) = render_expression e @ 43 # render_product p"
| "render_expression (Minus e p) = render_expression e @ 45 # render_product p"

primrec spec_value_factor :: "'a float64_ops \<Rightarrow> factor \<Rightarrow> 'a"
  and spec_value_product :: "'a float64_ops \<Rightarrow> product \<Rightarrow> 'a"
  and spec_value_expression :: "'a float64_ops \<Rightarrow> expression \<Rightarrow> 'a" where
  "spec_value_factor F (Digit d) = f64_digit F d"
| "spec_value_factor F (Paren e) = spec_value_expression F e"
| "spec_value_product F (Factor f) = spec_value_factor F f"
| "spec_value_product F (Times p f) = f64_mul F (spec_value_product F p) (spec_value_factor F f)"
| "spec_value_product F (Over p f) = f64_quo F (spec_value_product F p) (spec_value_factor F f)"
| "spec_value_expression F (Product p) = spec_value_product F p"
| "spec_value_expression F (Plus e p) = f64_add F (spec_value_expression F e) (spec_value_product F p)"
| "spec_value_expression F (Minus e p) = f64_sub F (spec_value_expression F e) (spec_value_product F p)"

primrec single_digits_factor :: "factor \<Rightarrow> bool"
  and single_digits_product :: "product \<Rightarrow> bool"
  and single_digits_expression :: "expression \<Rightarrow> bool" where
  "single_digits_factor (Digit d) = (d \<le> 9)"
| "single_digits_factor (Paren e) = single_digits_expression e"
| "single_digits_product (Factor f) = single_digits_factor f"
| "single_digits_product (Times p f) = (single_digits_product p \<and> single_digits_factor f)"
| "single_digits_product (Over p f) = (single_digits_product p \<and> single_digits_factor f)"
| "single_digits_expression (Product p) = single_digits_product p"
| "single_digits_expression (Plus e p) = (single_digits_expression e \<and> single_digits_product p)"
| "single_digits_expression (Minus e p) = (single_digits_expression e \<and> single_digits_product p)"


primrec no_parentheses_factor :: "factor \<Rightarrow> bool"
  and no_parentheses_product :: "product \<Rightarrow> bool"
  and no_parentheses_expression :: "expression \<Rightarrow> bool" where
  "no_parentheses_factor (Digit d) = True"
| "no_parentheses_factor (Paren e) = False"
| "no_parentheses_product (Factor f) = no_parentheses_factor f"
| "no_parentheses_product (Times p f) = (no_parentheses_product p \<and> no_parentheses_factor f)"
| "no_parentheses_product (Over p f) = (no_parentheses_product p \<and> no_parentheses_factor f)"
| "no_parentheses_expression (Product p) = no_parentheses_product p"
| "no_parentheses_expression (Plus e p) = (no_parentheses_expression e \<and> no_parentheses_product p)"
| "no_parentheses_expression (Minus e p) = (no_parentheses_expression e \<and> no_parentheses_product p)"

text \<open>
  A chain: a digit followed by operator-digit pairs, as in \<^verbatim>\<open>8/4/2\<close>, and its value when the
  operators are applied one after the other from the left.
\<close>

definition render_chain :: "nat \<Rightarrow> (rune \<times> nat) list \<Rightarrow> rune list" where
  "render_chain d ods = (48 + d) # concat (map (\<lambda>(op, d'). [op, 48 + d']) ods)"

definition left_to_right :: "'a float64_ops \<Rightarrow> nat \<Rightarrow> (rune \<times> nat) list \<Rightarrow> 'a" where
  "left_to_right F d ods =
     foldl (\<lambda>acc (op, d'). applyOperator F op acc (f64_digit F d')) (f64_digit F d) ods"

definition product_chain :: "product \<Rightarrow> (rune \<times> nat) list \<Rightarrow> product" where
  "product_chain p ods =
     foldl (\<lambda>q (op, d). if op = 42 then Times q (Digit d) else Over q (Digit d)) p ods"

definition sum_chain :: "expression \<Rightarrow> (rune \<times> nat) list \<Rightarrow> expression" where
  "sum_chain e ods =
     foldl (\<lambda>q (op, d). if op = 43 then Plus q (Factor (Digit d)) else Minus q (Factor (Digit d))) e ods"


text \<open>
  The tree of an expression without parentheses, given as its first digit and the
  operator-digit pairs that follow: \<open>flat_tree\<close> reads the pairs from the left, extends the
  current product at \<open>*\<close> and \<open>/\<close>, and closes it at \<open>+\<close> and \<open>-\<close>.
\<close>

fun attach :: "(expression \<times> rune) option \<Rightarrow> product \<Rightarrow> expression" where
  "attach None p = Product p"
| "attach (Some (e, op)) p = (if op = 43 then Plus e p else Minus e p)"

fun flat_tree :: "(expression \<times> rune) option \<Rightarrow> product \<Rightarrow> (rune \<times> nat) list \<Rightarrow> expression" where
  "flat_tree left p [] = attach left p"
| "flat_tree left p ((op, d) # ods) =
     (if op = 42 then flat_tree left (Times p (Digit d)) ods
      else if op = 47 then flat_tree left (Over p (Digit d)) ods
      else flat_tree (Some (attach left p, op)) (Factor (Digit d)) ods)"

subsection \<open>Notions used in the proofs about the evaluator\<close>

text \<open>
  While a product is being read, the stacks hold either its value on top of the operands, or
  two operands and a pending \<open>*\<close> or \<open>/\<close> that yield it. While a sum is being read there may be
  a pending \<open>+\<close> or \<open>-\<close> below that.
\<close>

definition mk :: "'a list \<Rightarrow> rune list \<Rightarrow> 'a stacks" where
  "mk vs os = \<lparr> operandStack = vs, operatorStack = os \<rparr>"

definition pendingProduct :: "'a float64_ops \<Rightarrow> 'a \<Rightarrow> 'a list \<Rightarrow> rune list \<Rightarrow> 'a stacks \<Rightarrow> bool" where
  "pendingProduct F v vs os s \<longleftrightarrow>
     s = mk (vs @ [v]) os \<or>
     (\<exists>a b op. mulOrDiv op \<and> s = mk (vs @ [a, b]) (os @ [op]) \<and> applyOperator F op a b = v)"

definition pendingSum :: "'a float64_ops \<Rightarrow> 'a \<Rightarrow> 'a list \<Rightarrow> rune list \<Rightarrow> 'a stacks \<Rightarrow> bool" where
  "pendingSum F v vs os s \<longleftrightarrow>
     pendingProduct F v vs os s \<or>
     (\<exists>a b op. (op = 43 \<or> op = 45) \<and> pendingProduct F b (vs @ [a]) (os @ [op]) s
        \<and> applyOperator F op a b = v)"


section \<open>Tasks, handlers and agents of main.go\<close>

text \<open>
  The struct \<^verbatim>\<open>Task\<close>. The field \<^verbatim>\<open>Mutex\<close> is left out: in main.go only the agent that
  holds the task locks it (around the call of \<^verbatim>\<open>evaluateExpression\<close>), so the lock never
  makes a thread wait. \<^verbatim>\<open>ID\<close> and \<^verbatim>\<open>AgentID\<close> are Go \<^verbatim>\<open>int\<close>s; they are modelled as
  unbounded integers, since the counter \<^verbatim>\<open>nextTaskID\<close> grows by one for each task that is kept
  in memory and cannot reach \<open>2 ^ 63\<close>. The expression is kept as its runes.
\<close>

record 'a Task =
  ID :: int
  Expression :: "rune list"
  Status :: string
  Result :: 'a
  AgentID :: int

text \<open>
  The program is concurrent: the HTTP server runs every call of \<^verbatim>\<open>addTaskHandler\<close> in a
  goroutine of its own, and \<^verbatim>\<open>startAgents\<close> starts the agents. No lock protects
  \<^verbatim>\<open>nextTaskID\<close>, \<^verbatim>\<open>tasks\<close> or the fields \<^verbatim>\<open>Status\<close> and \<^verbatim>\<open>ID\<close>. The model interleaves
  the threads statement by statement: a thread is at a line of the source, and a step
  executes that line. \<open>handler_pc\<close> names the line a call of \<^verbatim>\<open>addTaskHandler\<close> is about to
  execute (lines 48 to 57 of main.go; line 51 only resets the mutex), \<open>agent_pc\<close> the line of
  an agent together with the pointer in its variable \<^verbatim>\<open>task\<close>.
\<close>

datatype handler_pc = NoHandler | Line48 | Line49 | Line50 | Line52 | Line55 | Line57 | Returned

datatype agent_pc = Line99 | Line100 nat | Line103 nat | Line106 nat

text \<open>
  The state: the heap of \<^verbatim>\<open>Task\<close> objects (a pointer \<^verbatim>\<open>*Task\<close> is an address; \<open>allocated\<close> is
  the next free one), the package variables \<^verbatim>\<open>tasks\<close>, \<^verbatim>\<open>nextTaskID\<close> and \<^verbatim>\<open>taskChannel\<close>
  (the buffered channel holds pointers, the oldest first), the line of every handler call
  (a call is named by the address of its local \<^verbatim>\<open>task\<close>) and of every agent, and whether
  the process has panicked.
\<close>

record 'a state =
  heap :: "nat \<Rightarrow> 'a Task option"
  allocated :: nat
  tasks :: "nat list"
  nextTaskID :: int
  taskChannel :: "nat list"
  handlerLine :: "nat \<Rightarrow> handler_pc"
  agentLine :: "nat \<Rightarrow> agent_pc option"
  panicked :: bool

text \<open>\<^verbatim>\<open>startAgents(numAgents)\<close> starts the agents 1 to \<open>numAgents\<close>; \<^verbatim>\<open>main\<close> starts three.\<close>

definition startAgents :: "nat \<Rightarrow> nat \<Rightarrow> agent_pc option" where
  "startAgents numAgents = (\<lambda>agentID. if 1 \<le> agentID \<and> agentID \<le> numAgents then Some Line99 else None)"

definition initial :: "'a state" where
  "initial = \<lparr> heap = Map.empty, allocated = 0, tasks = [], nextTaskID = 1, taskChannel = [],
     handlerLine = (\<lambda>_. NoHandler), agentLine = startAgents 3, panicked = False \<rparr>"

text \<open>
  One line of \<^verbatim>\<open>addTaskHandler\<close>, executed by the call whose task is at address \<open>a\<close>.
  The send of line 55 waits while the channel holds 100 pointers (\<^verbatim>\<open>make(chan *Task, 100)\<close>):
  then there is no step.
\<close>

definition handlerStep :: "nat \<Rightarrow> 'a state \<Rightarrow> 'a state option" where
  "handlerStep a s =
     (case heap s a of
        None \<Rightarrow> None
      | Some task \<Rightarrow>
         (case handlerLine s a of
            Line48 \<Rightarrow> Some (s\<lparr> heap := (heap s)(a \<mapsto> task\<lparr> ID := nextTaskID s \<rparr>),
                               handlerLine := (handlerLine s)(a := Line49) \<rparr>)
          | Line49 \<Rightarrow> Some (s\<lparr> nextTaskID := nextTaskID s + 1,
                               handlerLine := (handlerLine s)(a := Line50) \<rparr>)
          | Line50 \<Rightarrow> Some (s\<lparr> heap := (heap s)(a \<mapsto> task\<lparr> Status := ''queued'' \<rparr>),
                               handlerLine := (handlerLine s)(a := Line52) \<rparr>)
          | Line52 \<Rightarrow> Some (s\<lparr> tasks := tasks s @ [a],
                               handlerLine := (handlerLine s)(a := Line55) \<rparr>)
          | Line55 \<Rightarrow> (if length (taskChannel s) < 100
                        then Some (s\<lparr> taskChannel := taskChannel s @ [a],
                                      handlerLine := (handlerLine s)(a := Line57) \<rparr>)
                        else None)
          | Line57 \<Rightarrow> Some (s\<lparr> handlerLine := (handlerLine s)(a := Returned) \<rparr>)
          | NoHandler \<Rightarrow> None
          | Returned \<Rightarrow> None))"

text \<open>
  One statement of the loop of an agent. The receive of line 99 waits while the channel is
  empty. At line 103 the agent calls \<^verbatim>\<open>evaluateExpression\<close>: when the call returns a number
  the agent stores it; when it panics the process ends; when it never returns the agent
  takes no further step.
\<close>

definition agentStep :: "'a float64_ops \<Rightarrow> nat \<Rightarrow> 'a state \<Rightarrow> 'a state option" where
  "agentStep F agentID s =
     (case agentLine s agentID of
        None \<Rightarrow> None
      | Some Line99 \<Rightarrow>
          (case taskChannel s of
             [] \<Rightarrow> None
           | a # rest \<Rightarrow>
               Some (s\<lparr> taskChannel := rest,
                        agentLine := (agentLine s)(agentID \<mapsto> Line100 a) \<rparr>))
      | Some (Line100 a) \<Rightarrow>
          (case heap s a of
             None \<Rightarrow> None
           | Some task \<Rightarrow>
               Some (s\<lparr> heap := (heap s)(a \<mapsto> task\<lparr> Status := ''calculated'' \<rparr>),
                        agentLine := (agentLine s)(agentID \<mapsto> Line103 a) \<rparr>))
      | Some (Line103 a) \<Rightarrow>
          (case heap s a of
             None \<Rightarrow> None
           | Some task \<Rightarrow>
               (case evaluateExpression F (Expression task) of
                  None \<Rightarrow> None
                | Some IndexOutOfRange \<Rightarrow> Some (s\<lparr> panicked := True \<rparr>)
                | Some (Returns v) \<Rightarrow>
                    Some (s\<lparr> heap := (heap s)(a \<mapsto> task\<lparr> Result := v \<rparr>),
                             agentLine := (agentLine s)(agentID \<mapsto> Line106 a) \<rparr>)))
      | Some (Line106 a) \<Rightarrow>
          (case heap s a of
             None \<Rightarrow> None
           | Some task \<Rightarrow>
               Some (s\<lparr> heap := (heap s)(a \<mapsto> task\<lparr> Status := ''completed'' \<rparr>),
                        agentLine := (agentLine s)(agentID \<mapsto> Line99) \<rparr>)))"

text \<open>
  What the scheduler and the clients can do next: a request to \<^verbatim>\<open>/tasks/add\<close> arrives and its
  body is decoded into a fresh \<^verbatim>\<open>Task\<close> (lines 41 to 45; the body may set any field), a
  handler call executes its next line, or an agent executes its next statement. A run is a
  sequence of such events; \<open>None\<close> when one of them cannot happen.
\<close>

datatype 'a event = Request "'a Task" | HandlerStep nat | AgentStep nat

definition step :: "'a float64_ops \<Rightarrow> 'a event \<Rightarrow> 'a state \<Rightarrow> 'a state option" where
  "step F ev s =
     (if panicked s then None
      else case ev of
        Request body \<Rightarrow>
          Some (s\<lparr> heap := (heap s)(allocated s \<mapsto> body),
                   allocated := allocated s + 1,
                   handlerLine := (handlerLine s)(allocated s := Line48) \<rparr>)
      | HandlerStep a \<Rightarrow> handlerStep a s
      | AgentStep agentID \<Rightarrow> agentStep F agentID s)"

fun run :: "'a float64_ops \<Rightarrow> 'a event list \<Rightarrow> 'a state \<Rightarrow> 'a state option" where
  "run F [] s = Some s"
| "run F (ev # es) s = (case step F ev s of None \<Rightarrow> None | Some s1 \<Rightarrow> run F es s1)"

text \<open>The fields \<^verbatim>\<open>Status\<close> and \<^verbatim>\<open>ID\<close> of the task at an address.\<close>

definition status :: "'a state \<Rightarrow> nat \<Rightarrow> string option" where
  "status s a = map_option Status (heap s a)"

definition idOf :: "'a state \<Rightarrow> nat \<Rightarrow> int option" where
  "idOf s a = map_option ID (heap s a)"

text \<open>\<^verbatim>\<open>listTasksHandler\<close> encodes the tasks the slice \<^verbatim>\<open>tasks\<close> points to, in its order.\<close>

definition listTasksHandler :: "'a state \<Rightarrow> 'a Task option list" where
  "listTasksHandler s = map (heap s) (tasks s)"

subsection \<open>The handler of GET /tasks/{id}/result\<close>

text \<open>
  \<^verbatim>\<open>strings.TrimPrefix\<close>, the first element of \<^verbatim>\<open>strings.Split(_, "/")\<close>, and
  \<^verbatim>\<open>strconv.Atoi\<close> of the Go library: an optional sign, then one or more decimal digits,
  and a value that fits the 64-bit \<^verbatim>\<open>int\<close>; everything else is an error.
\<close>

definition TrimPrefix :: "string \<Rightarrow> string \<Rightarrow> string" where
  "TrimPrefix s prefix = (if take (length prefix) s = prefix then drop (length prefix) s else s)"

definition firstSegment :: "string \<Rightarrow> string" where
  "firstSegment s = takeWhile (\<lambda>c. c \<noteq> CHR ''/'') s"

definition isDigit :: "char \<Rightarrow> bool" where
  "isDigit c = (48 \<le> (of_char c :: nat) \<and> (of_char c :: nat) \<le> 57)"

definition decimal :: "string \<Rightarrow> int" where
  "decimal ds = foldl (\<lambda>n c. 10 * n + (int (of_char c) - 48)) 0 ds"

definition Atoi :: "string \<Rightarrow> int option" where
  "Atoi s =
     (let negative = (s \<noteq> [] \<and> hd s = CHR ''-'');
          ds = (if s \<noteq> [] \<and> (hd s = CHR ''+'' \<or> hd s = CHR ''-'') then tl s else s)
      in if ds = [] \<or> \<not> list_all isDigit ds then None
         else let n = (if negative then - decimal ds else decimal ds)
              in if - (2 ^ 63) \<le> n \<and> n < 2 ^ 63 then Some n else None)"

text \<open>
  The handler hands \<^verbatim>\<open>map[string]string{"status": ...}\<close> or
  \<^verbatim>\<open>map[string]float64{"result": ...}\<close> to \<^verbatim>\<open>json.NewEncoder(w).Encode\<close>. The encoder of the
  Go library writes the object as the body, except that it writes nothing and returns an
  \<^verbatim>\<open>UnsupportedValueError\<close> when a \<^verbatim>\<open>float64\<close> is not-a-number or an infinity. The handler
  drops that error, and the server then answers with the status code and an empty body.
  \<open>Encode\<close> gives what is written, if anything.
\<close>

datatype 'a json_body = StatusBody string | ResultBody 'a

definition Encode :: "'a float64_ops \<Rightarrow> 'a json_body \<Rightarrow> 'a json_body option" where
  "Encode F v =
     (case v of
        StatusBody message \<Rightarrow> Some (StatusBody message)
      | ResultBody x \<Rightarrow> if f64_finite F x then Some (ResultBody x) else None)"

text \<open>
  A response is \<^verbatim>\<open>http.Error(w, message, code)\<close>, or a status code (200 when the handler
  sets none) and the body the encoder wrote, \<open>None\<close> for the empty body.
\<close>

datatype 'a response = HttpError string nat | Written nat "'a json_body option"

text \<open>
  Lines 68 to 74: the identifier is turned into a position of \<^verbatim>\<open>tasks\<close>. The handler only
  reads, and what it reads after a check does not change any more (\<^verbatim>\<open>tasks\<close> only grows, and
  a \<^verbatim>\<open>completed\<close> task is not written again), so it is modelled as a function of the state
  at the time of the request.
\<close>

definition lookupTask :: "'a state \<Rightarrow> int \<Rightarrow> nat option" where
  "lookupTask s taskID =
     (if taskID < 1 \<or> taskID > int (length (tasks s)) then None
      else Some (tasks s ! nat (taskID - 1)))"

definition getTaskResultHandler :: "'a float64_ops \<Rightarrow> string \<Rightarrow> 'a state \<Rightarrow> 'a response option" where
  "getTaskResultHandler F path s =
     (case Atoi (firstSegment (TrimPrefix path ''/tasks/'')) of
        None \<Rightarrow> Some (HttpError ''Invalid task ID'' 400)
      | Some taskID \<Rightarrow>
          (case lookupTask s taskID of
             None \<Rightarrow> Some (HttpError ''Task not found'' 404)
           | Some a \<Rightarrow>
               (case heap s a of
                  None \<Rightarrow> None
                | Some task \<Rightarrow>
                    if Status task \<noteq> ''completed''
                    then Some (Written 202 (Encode F (StatusBody ''Task is not completed yet'')))
                    else Some (Written 200 (Encode F (ResultBody (Result task)))))))"

subsection \<open>Notions used to state the properties of the tasks\<close>


definition evaluated :: "'a float64_ops \<Rightarrow> 'a Task \<Rightarrow> bool" where
  "evaluated F task \<longleftrightarrow> evaluateExpression F (Expression task) = Some (Returns (Result task))"


text \<open>
  The pointers sent to and received from \<^verbatim>\<open>taskChannel\<close> by one event, and by a run, in the
  order of the events.
\<close>

definition sends :: "'a event \<Rightarrow> 'a state \<Rightarrow> nat list" where
  "sends ev s =
     (case ev of
        HandlerStep a \<Rightarrow> if handlerLine s a = Line55 then [a] else []
      | _ \<Rightarrow> [])"

definition receives :: "'a event \<Rightarrow> 'a state \<Rightarrow> nat list" where
  "receives ev s =
     (case ev of
        AgentStep w \<Rightarrow> if agentLine s w = Some Line99 then take 1 (taskChannel s) else []
      | _ \<Rightarrow> [])"

fun enqueued :: "'a float64_ops \<Rightarrow> 'a event list \<Rightarrow> 'a state \<Rightarrow> nat list" where
  "enqueued F [] s = []"
| "enqueued F (ev # es) s =
     (case step F ev s of None \<Rightarrow> [] | Some s1 \<Rightarrow> sends ev s @ enqueued F es s1)"

fun dequeued :: "'a float64_ops \<Rightarrow> 'a event list \<Rightarrow> 'a state \<Rightarrow> nat list" where
  "dequeued F [] s = []"
| "dequeued F (ev # es) s =
     (case step F ev s of None \<Rightarrow> [] | Some s1 \<Rightarrow> receives ev s @ dequeued F es s1)"

text \<open>
  A handler call is between its read of \<^verbatim>\<open>nextTaskID\<close> (line 48) and its append to \<^verbatim>\<open>tasks\<close>
  (line 52) when it is at line 49, 50 or 52. In an exclusive run no call executes line 48
  while another call is there: the runs a lock around lines 48 to 52 would allow, and the
  runs in which the requests arrive one after the other. A call has an identifier once it
  has executed line 48.
\<close>

definition critical :: "handler_pc \<Rightarrow> bool" where
  "critical l \<longleftrightarrow> l = Line49 \<or> l = Line50 \<or> l = Line52"

definition entersAlone :: "'a event \<Rightarrow> 'a state \<Rightarrow> bool" where
  "entersAlone ev s =
     (case ev of
        HandlerStep a \<Rightarrow>
          handlerLine s a = Line48 \<longrightarrow> (\<forall>b < allocated s. \<not> critical (handlerLine s b))
      | _ \<Rightarrow> True)"

fun exclusive :: "'a float64_ops \<Rightarrow> 'a event list \<Rightarrow> 'a state \<Rightarrow> bool" where
  "exclusive F [] s = True"
| "exclusive F (ev # es) s =
     (entersAlone ev s \<and> (case step F ev s of None \<Rightarrow> True | Some s1 \<Rightarrow> exclusive F es s1))"

definition assigned :: "'a state \<Rightarrow> nat \<Rightarrow> bool" where
  "assigned s a \<longleftrightarrow> handlerLine s a \<noteq> NoHandler \<and> handlerLine s a \<noteq> Line48"

text \<open>The decoded body of a request that gives the expression only.\<close>

definition submission :: "string \<Rightarrow> real Task" where
  "submission e = \<lparr> ID = 0, Expression = runes e, Status = [], Result = 0, AgentID = 0 \<rparr>"

subsection \<open>Invariants of the runs\<close>

text \<open>
  What holds in every state a run reaches: addresses not yet allocated have no handler; the
  slice \<^verbatim>\<open>tasks\<close> holds, once each, the tasks whose handler has passed line 52; a pointer in
  the channel belongs to a task that was sent, is \<^verbatim>\<open>queued\<close> and is held by no agent; an
  agent holds a task that was sent, no two agents hold the same task, and the status of a
  held task is \<^verbatim>\<open>queued\<close> before line 100 and \<^verbatim>\<open>calculated\<close> after it; a task is
  \<^verbatim>\<open>queued\<close> from line 50 until it is sent.
\<close>

definition consistent :: "'a state \<Rightarrow> bool" where
  "consistent s \<longleftrightarrow>
     (\<forall>a. allocated s \<le> a \<longrightarrow> handlerLine s a = NoHandler) \<and>
     (\<forall>a. handlerLine s a \<noteq> NoHandler \<longrightarrow> heap s a \<noteq> None) \<and>
     (\<forall>a \<in> set (tasks s). handlerLine s a = Line55 \<or> handlerLine s a = Line57 \<or> handlerLine s a = Returned) \<and>
     (\<forall>a. handlerLine s a = Line55 \<or> handlerLine s a = Line57 \<or> handlerLine s a = Returned
          \<longrightarrow> a \<in> set (tasks s)) \<and>
     distinct (tasks s) \<and>
     (\<forall>a \<in> set (taskChannel s). (handlerLine s a = Line57 \<or> handlerLine s a = Returned)
          \<and> status s a = Some ''queued''
          \<and> (\<forall>w. agentLine s w \<noteq> Some (Line100 a) \<and> agentLine s w \<noteq> Some (Line103 a)
                 \<and> agentLine s w \<noteq> Some (Line106 a))) \<and>
     distinct (taskChannel s) \<and>
     (\<forall>w a. agentLine s w = Some (Line100 a) \<longrightarrow>
        (handlerLine s a = Line57 \<or> handlerLine s a = Returned) \<and> status s a = Some ''queued''
        \<and> (\<forall>w'. agentLine s w' = Some (Line100 a) \<longrightarrow> w' = w)
        \<and> (\<forall>w'. agentLine s w' \<noteq> Some (Line103 a) \<and> agentLine s w' \<noteq> Some (Line106 a))) \<and>
     (\<forall>w a. agentLine s w = Some (Line103 a) \<longrightarrow>
        (handlerLine s a = Line57 \<or> handlerLine s a = Returned) \<and> status s a = Some ''calculated''
        \<and> (\<forall>w'. agentLine s w' = Some (Line103 a) \<longrightarrow> w' = w)
        \<and> (\<forall>w'. agentLine s w' \<noteq> Some (Line106 a))) \<and>
     (\<forall>w a. agentLine s w = Some (Line106 a) \<longrightarrow>
        (handlerLine s a = Line57 \<or> handlerLine s a = Returned) \<and> status s a = Some ''calculated''
        \<and> (\<forall>w'. agentLine s w' = Some (Line106 a) \<longrightarrow> w' = w)) \<and>
     (\<forall>a. handlerLine s a = Line52 \<or> handlerLine s a = Line55 \<longrightarrow> status s a = Some ''queued'')"

text \<open>
  An agent at line 106 has stored the number \<^verbatim>\<open>evaluateExpression\<close> returned for the expression
  of its task, and so has every \<^verbatim>\<open>completed\<close> task whose handler has passed line 50.
\<close>

definition results_recorded :: "'a float64_ops \<Rightarrow> 'a state \<Rightarrow> bool" where
  "results_recorded F s \<longleftrightarrow>
     (\<forall>w a task. agentLine s w = Some (Line106 a) \<and> heap s a = Some task \<longrightarrow> evaluated F task) \<and>
     (\<forall>a task. (handlerLine s a = Line52 \<or> handlerLine s a = Line55 \<or> handlerLine s a = Line57
                 \<or> handlerLine s a = Returned)
          \<and> heap s a = Some task \<and> Status task = ''completed'' \<longrightarrow> evaluated F task)"

text \<open>
  In an exclusive run the identifiers follow the positions: the task at position \<open>k\<close> of
  \<^verbatim>\<open>tasks\<close> has identifier \<open>k + 1\<close>, at most one call is between lines 48 and 52, and
  \<^verbatim>\<open>nextTaskID\<close> is one more than the length of \<^verbatim>\<open>tasks\<close>, or two more when that call has
  executed line 49.
\<close>

definition serialOn :: "(nat \<Rightarrow> handler_pc) \<Rightarrow> nat list \<Rightarrow> (nat \<Rightarrow> int option) \<Rightarrow> int \<Rightarrow> bool" where
  "serialOn hl ts ids n \<longleftrightarrow>
     (\<forall>a b. critical (hl a) \<and> critical (hl b) \<longrightarrow> a = b) \<and>
     (\<forall>k < length ts. ids (ts ! k) = Some (int k + 1)) \<and>
     ((\<forall>a. \<not> critical (hl a)) \<longrightarrow> n = int (length ts) + 1) \<and>
     (\<forall>a. hl a = Line49 \<longrightarrow> n = int (length ts) + 1 \<and> ids a = Some (int (length ts) + 1)) \<and>
     (\<forall>a. hl a = Line50 \<or> hl a = Line52 \<longrightarrow>
        n = int (length ts) + 2 \<and> ids a = Some (int (length ts) + 1))"

definition serial :: "'a state \<Rightarrow> bool" where
  "serial s = serialOn (handlerLine s) (tasks s) (idOf s) (nextTaskID s)"

section \<open>Properties of the evaluator\<close>

lemma mk_sel [simp]: "operandStack (mk vs os) = vs" "operatorStack (mk vs os) = os"
  by (simp_all add: mk_def)

lemma mk_upd [simp]:
  "(mk vs os)\<lparr> operatorStack := os' \<rparr> = mk vs os'"
  "(mk vs os)\<lparr> operandStack := vs' \<rparr> = mk vs' os"
  by (simp_all add: mk_def)

lemma performOperation_top:
  "performOperation F (mk (vs @ [a, b]) (os @ [op])) = mk (vs @ [applyOperator F op a b]) os"
  by (simp add: performOperation_def applyOperator_def mk_def butlast_append Let_def)

lemma reduceWhile_stop:
  "operatorStack s = [] \<or> \<not> cond (last (operatorStack s)) \<Longrightarrow> reduceWhile F cond s = Some s"
  by (subst reduceWhile.simps) auto

lemma reduceWhile_step:
  "cond op \<Longrightarrow> reduceWhile F cond (mk (vs @ [a, b]) (os @ [op])) =
     reduceWhile F cond (mk (vs @ [applyOperator F op a b]) os)"
  by (subst reduceWhile.simps) (simp add: performOperation_top)

lemma drain_product:
  assumes "pendingProduct F v vs os s" and "cond 42" and "cond 47"
    and "os = [] \<or> \<not> cond (last os)"
  shows "reduceWhile F cond s = Some (mk (vs @ [v]) os)"
  using assms(1) unfolding pendingProduct_def
proof (elim disjE exE conjE)
  assume "s = mk (vs @ [v]) os"
  with assms(4) show ?thesis by (simp add: reduceWhile_stop)
next
  fix a b op
  assume h: "mulOrDiv op" "s = mk (vs @ [a, b]) (os @ [op])" "applyOperator F op a b = v"
  from h(1) assms(2,3) have "cond op" by (auto simp: mulOrDiv_def)
  with h(2,3) assms(4) show ?thesis by (simp add: reduceWhile_step reduceWhile_stop)
qed

lemma drain_sum:
  assumes "pendingSum F v vs os s" and "cond 42" and "cond 47" and "cond 43" and "cond 45"
    and "os = [] \<or> \<not> cond (last os)"
  shows "reduceWhile F cond s = Some (mk (vs @ [v]) os)"
proof (cases "pendingProduct F v vs os s")
  case True
  then show ?thesis using assms(2,3,6) by (rule drain_product)
next
  case False
  with assms(1) obtain a b op where h: "op = 43 \<or> op = 45"
    "pendingProduct F b (vs @ [a]) (os @ [op]) s" "applyOperator F op a b = v"
    unfolding pendingSum_def by blast
  from h(1) assms(4,5) have c: "cond op" by auto
  have last_step: "reduceWhile F cond (mk (vs @ [a, b]) (os @ [op])) = Some (mk (vs @ [v]) os)"
    using c h(3) assms(6) by (simp add: reduceWhile_step reduceWhile_stop)
  from h(2) consider (plain) "s = mk ((vs @ [a]) @ [b]) (os @ [op])"
    | (pending) x y m where "mulOrDiv m" "s = mk ((vs @ [a]) @ [x, y]) ((os @ [op]) @ [m])"
        "applyOperator F m x y = b"
    unfolding pendingProduct_def by blast
  then show ?thesis
  proof cases
    case plain
    then show ?thesis using last_step by simp
  next
    case pending
    from pending(1) assms(2,3) have cm: "cond m" by (auto simp: mulOrDiv_def)
    have "reduceWhile F cond s = reduceWhile F cond (mk ((vs @ [a]) @ [b]) (os @ [op]))"
      using pending(2,3) reduceWhile_step [where cond = cond and op = m and F = F
          and vs = "vs @ [a]" and a = x and b = y and os = "os @ [op]", OF cm] by simp
    then show ?thesis using last_step by simp
  qed
qed

lemma scanRunes_append:
  "scanRunes F (xs @ ys) s =
     (case scanRunes F xs s of None \<Rightarrow> None | Some s1 \<Rightarrow> scanRunes F ys s1)"
  by (induction xs arbitrary: s) (auto split: option.splits)

lemma scanRune_open: "scanRune F 40 (mk vs os) = Some (mk vs (os @ [40]))"
  by (simp add: scanRune_def)

lemma scanRune_operand:
  "char \<notin> {40, 41, 43, 45, 42, 47} \<Longrightarrow>
     scanRune F char (mk vs os) = Some (mk (vs @ [fst (parseFloat F char)]) os)"
  by (simp add: scanRune_def)

lemma scanRune_digit:
  "d \<le> 9 \<Longrightarrow> scanRune F (48 + d) (mk vs os) = Some (mk (vs @ [f64_digit F d]) os)"
  by (simp add: scanRune_def parseFloat_def)

lemma scanRune_close:
  assumes "pendingSum F v vs (os @ [40]) s"
  shows "scanRune F 41 s = Some (mk (vs @ [v]) os)"
proof -
  have "reduceWhile F notOpenParen s = Some (mk (vs @ [v]) (os @ [40]))"
    using assms by (rule drain_sum) (simp_all add: notOpenParen_def)
  then show ?thesis by (simp add: scanRune_def)
qed

lemma scanRune_additive:
  assumes "pendingSum F v vs os s" and "os = [] \<or> \<not> anyOperator (last os)"
    and "char = 43 \<or> char = 45"
  shows "scanRune F char s = Some (mk (vs @ [v]) (os @ [char]))"
proof -
  have "reduceWhile F anyOperator s = Some (mk (vs @ [v]) os)"
    using assms(1) by (rule drain_sum) (use assms(2) in \<open>simp_all add: anyOperator_def\<close>)
  with assms(3) show ?thesis by (auto simp add: scanRune_def)
qed

lemma scanRune_multiplicative:
  assumes "pendingProduct F v vs os s" and "os = [] \<or> \<not> mulOrDiv (last os)"
    and "char = 42 \<or> char = 47"
  shows "scanRune F char s = Some (mk (vs @ [v]) (os @ [char]))"
proof -
  have "reduceWhile F mulOrDiv s = Some (mk (vs @ [v]) os)"
    using assms(1) by (rule drain_product) (use assms(2) in \<open>simp_all add: mulOrDiv_def\<close>)
  with assms(3) show ?thesis by (auto simp add: scanRune_def)
qed


lemma pendingProduct_plain: "pendingProduct F v vs os (mk (vs @ [v]) os)"
  by (simp add: pendingProduct_def)

lemma pendingProduct_top:
  "mulOrDiv op \<Longrightarrow> pendingProduct F (applyOperator F op a b) vs os (mk (vs @ [a, b]) (os @ [op]))"
  by (auto simp add: pendingProduct_def)

lemma pendingSum_product: "pendingProduct F v vs os s \<Longrightarrow> pendingSum F v vs os s"
  by (simp add: pendingSum_def)

lemma pendingSum_top:
  "op = 43 \<or> op = 45 \<Longrightarrow> pendingProduct F b (vs @ [a]) (os @ [op]) s \<Longrightarrow>
     pendingSum F (applyOperator F op a b) vs os s"
  by (auto simp add: pendingSum_def)

lemma scan_rendered:
  "single_digits_factor f \<longrightarrow>
     (\<forall>vs os. scanRunes F (render_factor f) (mk vs os) = Some (mk (vs @ [spec_value_factor F f]) os))"
  "single_digits_product p \<longrightarrow>
     (\<forall>vs os. os = [] \<or> \<not> mulOrDiv (last os) \<longrightarrow>
        (\<exists>s. scanRunes F (render_product p) (mk vs os) = Some s
           \<and> pendingProduct F (spec_value_product F p) vs os s))"
  "single_digits_expression e \<longrightarrow>
     (\<forall>vs os. os = [] \<or> \<not> anyOperator (last os) \<longrightarrow>
        (\<exists>s. scanRunes F (render_expression e) (mk vs os) = Some s
           \<and> pendingSum F (spec_value_expression F e) vs os s))"
proof (induction f and p and e)
  case (Digit d)
  show ?case by (simp add: scanRune_digit)
next
  case (Paren e)
  show ?case
  proof (intro impI allI)
    fix vs :: "'a list" and os :: "rune list"
    assume "single_digits_factor (Paren e)"
    then have "single_digits_expression e" by simp
    from Paren [rule_format, OF this, of "os @ [40]" vs]
    obtain s where s: "scanRunes F (render_expression e) (mk vs (os @ [40])) = Some s"
      "pendingSum F (spec_value_expression F e) vs (os @ [40]) s"
      by (auto simp: anyOperator_def)
    show "scanRunes F (render_factor (Paren e)) (mk vs os)
        = Some (mk (vs @ [spec_value_factor F (Paren e)]) os)"
      using s by (simp add: scanRune_open scanRunes_append scanRune_close)
  qed
next
  case (Factor f)
  then show ?case by (auto intro: pendingProduct_plain)
next
  case (Times p f)
  show ?case
  proof (intro impI allI)
    fix vs :: "'a list" and os :: "rune list"
    assume wf: "single_digits_product (Times p f)" and top: "os = [] \<or> \<not> mulOrDiv (last os)"
    then have wfp: "single_digits_product p" and wff: "single_digits_factor f" by simp_all
    from Times(1) [rule_format, OF wfp top]
    obtain s where s: "scanRunes F (render_product p) (mk vs os) = Some s"
      "pendingProduct F (spec_value_product F p) vs os s" by blast
    have 1: "scanRune F 42 s = Some (mk (vs @ [spec_value_product F p]) (os @ [42]))"
      using s(2) top by (rule scanRune_multiplicative) simp
    have 2: "scanRunes F (render_factor f) (mk (vs @ [spec_value_product F p]) (os @ [42]))
        = Some (mk ((vs @ [spec_value_product F p]) @ [spec_value_factor F f]) (os @ [42]))"
      using Times(2) [rule_format, OF wff] by simp
    have "pendingProduct F (spec_value_product F (Times p f)) vs os
        (mk (vs @ [spec_value_product F p, spec_value_factor F f]) (os @ [42]))"
      using pendingProduct_top [of 42 F "spec_value_product F p" "spec_value_factor F f" vs os]
      by (simp add: mulOrDiv_def applyOperator_def)
    then show "\<exists>s. scanRunes F (render_product (Times p f)) (mk vs os) = Some s
        \<and> pendingProduct F (spec_value_product F (Times p f)) vs os s"
      using s(1) 1 2 by (simp add: scanRunes_append)
  qed
next
  case (Over p f)
  show ?case
  proof (intro impI allI)
    fix vs :: "'a list" and os :: "rune list"
    assume wf: "single_digits_product (Over p f)" and top: "os = [] \<or> \<not> mulOrDiv (last os)"
    then have wfp: "single_digits_product p" and wff: "single_digits_factor f" by simp_all
    from Over(1) [rule_format, OF wfp top]
    obtain s where s: "scanRunes F (render_product p) (mk vs os) = Some s"
      "pendingProduct F (spec_value_product F p) vs os s" by blast
    have 1: "scanRune F 47 s = Some (mk (vs @ [spec_value_product F p]) (os @ [47]))"
      using s(2) top by (rule scanRune_multiplicative) simp
    have 2: "scanRunes F (render_factor f) (mk (vs @ [spec_value_product F p]) (os @ [47]))
        = Some (mk ((vs @ [spec_value_product F p]) @ [spec_value_factor F f]) (os @ [47]))"
      using Over(2) [rule_format, OF wff] by simp
    have "pendingProduct F (spec_value_product F (Over p f)) vs os
        (mk (vs @ [spec_value_product F p, spec_value_factor F f]) (os @ [47]))"
      using pendingProduct_top [of 47 F "spec_value_product F p" "spec_value_factor F f" vs os]
      by (simp add: mulOrDiv_def applyOperator_def)
    then show "\<exists>s. scanRunes F (render_product (Over p f)) (mk vs os) = Some s
        \<and> pendingProduct F (spec_value_product F (Over p f)) vs os s"
      using s(1) 1 2 by (simp add: scanRunes_append)
  qed
next
  case (Product p)
  show ?case
  proof (intro impI allI)
    fix vs :: "'a list" and os :: "rune list"
    assume wf: "single_digits_expression (Product p)"
      and top: "os = [] \<or> \<not> anyOperator (last os)"
    from top have "os = [] \<or> \<not> mulOrDiv (last os)"
      by (auto simp: anyOperator_def mulOrDiv_def)
    moreover from wf have "single_digits_product p" by simp
    ultimately obtain s where "scanRunes F (render_product p) (mk vs os) = Some s"
      "pendingProduct F (spec_value_product F p) vs os s"
      using Product [rule_format, of os vs] by blast
    then show "\<exists>s. scanRunes F (render_expression (Product p)) (mk vs os) = Some s
        \<and> pendingSum F (spec_value_expression F (Product p)) vs os s"
      by (auto intro: pendingSum_product)
  qed
next
  case (Plus e p)
  show ?case
  proof (intro impI allI)
    fix vs :: "'a list" and os :: "rune list"
    assume wf: "single_digits_expression (Plus e p)"
      and top: "os = [] \<or> \<not> anyOperator (last os)"
    then have wfe: "single_digits_expression e" and wfp: "single_digits_product p" by simp_all
    from Plus(1) [rule_format, OF wfe top]
    obtain s where s: "scanRunes F (render_expression e) (mk vs os) = Some s"
      "pendingSum F (spec_value_expression F e) vs os s" by blast
    have 1: "scanRune F 43 s = Some (mk (vs @ [spec_value_expression F e]) (os @ [43]))"
      using s(2) top by (rule scanRune_additive) simp
    obtain s2 where s2:
      "scanRunes F (render_product p) (mk (vs @ [spec_value_expression F e]) (os @ [43])) = Some s2"
      "pendingProduct F (spec_value_product F p) (vs @ [spec_value_expression F e]) (os @ [43]) s2"
      using Plus(2) [rule_format, OF wfp, of "os @ [43]" "vs @ [spec_value_expression F e]"]
      by (auto simp: mulOrDiv_def)
    have "pendingSum F (spec_value_expression F (Plus e p)) vs os s2"
      using pendingSum_top [of 43, OF _ s2(2)] by (simp add: applyOperator_def)
    then show "\<exists>s. scanRunes F (render_expression (Plus e p)) (mk vs os) = Some s
        \<and> pendingSum F (spec_value_expression F (Plus e p)) vs os s"
      using s(1) 1 s2(1) by (simp add: scanRunes_append)
  qed
next
  case (Minus e p)
  show ?case
  proof (intro impI allI)
    fix vs :: "'a list" and os :: "rune list"
    assume wf: "single_digits_expression (Minus e p)"
      and top: "os = [] \<or> \<not> anyOperator (last os)"
    then have wfe: "single_digits_expression e" and wfp: "single_digits_product p" by simp_all
    from Minus(1) [rule_format, OF wfe top]
    obtain s where s: "scanRunes F (render_expression e) (mk vs os) = Some s"
      "pendingSum F (spec_value_expression F e) vs os s" by blast
    have 1: "scanRune F 45 s = Some (mk (vs @ [spec_value_expression F e]) (os @ [45]))"
      using s(2) top by (rule scanRune_additive) simp
    obtain s2 where s2:
      "scanRunes F (render_product p) (mk (vs @ [spec_value_expression F e]) (os @ [45])) = Some s2"
      "pendingProduct F (spec_value_product F p) (vs @ [spec_value_expression F e]) (os @ [45]) s2"
      using Minus(2) [rule_format, OF wfp, of "os @ [45]" "vs @ [spec_value_expression F e]"]
      by (auto simp: mulOrDiv_def)
    have "pendingSum F (spec_value_expression F (Minus e p)) vs os s2"
      using pendingSum_top [of 45, OF _ s2(2)] by (simp add: applyOperator_def)
    then show "\<exists>s. scanRunes F (render_expression (Minus e p)) (mk vs os) = Some s
        \<and> pendingSum F (spec_value_expression F (Minus e p)) vs os s"
      using s(1) 1 s2(1) by (simp add: scanRunes_append)
  qed
qed

lemma removeSpaces_idem: "removeSpaces (removeSpaces cs) = removeSpaces cs"
  by (simp add: removeSpaces_def)

lemma evaluate_rendered:
  assumes "single_digits_expression e" and "removeSpaces text = render_expression e"
  shows "evaluateExpression F text = Some (Returns (spec_value_expression F e))"
proof -
  from scan_rendered(3) [rule_format, OF assms(1), of "[]" F "[]"]
  obtain s where s: "scanRunes F (render_expression e) (mk [] []) = Some s"
    "pendingSum F (spec_value_expression F e) [] [] s" by auto
  have "reduceWhile F anything s = Some (mk ([] @ [spec_value_expression F e]) [])"
    using s(2) by (rule drain_sum) (simp_all add: anything_def)
  with s(1) assms(2) show ?thesis
    by (simp add: evaluateExpression_def mk_def)
qed


lemma rendered_without_spaces:
  "32 \<notin> set (render_factor f)" "32 \<notin> set (render_product p)" "32 \<notin> set (render_expression e)"
  by (induction f and p and e) auto

lemma removeSpaces_rendered: "removeSpaces (render_expression e) = render_expression e"
  using rendered_without_spaces(3) [of e] by (auto simp add: removeSpaces_def filter_id_conv)

lemma product_chain_props:
  assumes "\<forall>(op, d) \<in> set ods. d \<le> 9 \<and> (op = 42 \<or> op = 47)"
  shows "render_product (product_chain p ods) =
           render_product p @ concat (map (\<lambda>(op, d'). [op, 48 + d']) ods)
       \<and> spec_value_product F (product_chain p ods) =
           foldl (\<lambda>acc (op, d'). applyOperator F op acc (f64_digit F d')) (spec_value_product F p) ods
       \<and> (single_digits_product p \<longrightarrow> single_digits_product (product_chain p ods))"
  using assms
proof (induction ods arbitrary: p)
  case Nil
  show ?case by (simp add: product_chain_def)
next
  case (Cons od ods)
  obtain op d where od: "od = (op, d)" by (cases od)
  with Cons.prems have d: "d \<le> 9" and op: "op = 42 \<or> op = 47" by auto
  let ?q = "if op = 42 then Times p (Digit d) else Over p (Digit d)"
  have unfold: "product_chain p (od # ods) = product_chain ?q ods"
    by (simp add: product_chain_def od)
  from Cons.prems have "\<forall>(op, d) \<in> set ods. d \<le> 9 \<and> (op = 42 \<or> op = 47)" by simp
  from Cons.IH [OF this, of ?q] show ?case
    unfolding unfold using d op by (auto simp: od applyOperator_def)
qed

lemma sum_chain_props:
  assumes "\<forall>(op, d) \<in> set ods. d \<le> 9 \<and> (op = 43 \<or> op = 45)"
  shows "render_expression (sum_chain e ods) =
           render_expression e @ concat (map (\<lambda>(op, d'). [op, 48 + d']) ods)
       \<and> spec_value_expression F (sum_chain e ods) =
           foldl (\<lambda>acc (op, d'). applyOperator F op acc (f64_digit F d')) (spec_value_expression F e) ods
       \<and> (single_digits_expression e \<longrightarrow> single_digits_expression (sum_chain e ods))"
  using assms
proof (induction ods arbitrary: e)
  case Nil
  show ?case by (simp add: sum_chain_def)
next
  case (Cons od ods)
  obtain op d where od: "od = (op, d)" by (cases od)
  with Cons.prems have d: "d \<le> 9" and op: "op = 43 \<or> op = 45" by auto
  let ?q = "if op = 43 then Plus e (Factor (Digit d)) else Minus e (Factor (Digit d))"
  have unfold: "sum_chain e (od # ods) = sum_chain ?q ods"
    by (simp add: sum_chain_def od)
  from Cons.prems have "\<forall>(op, d) \<in> set ods. d \<le> 9 \<and> (op = 43 \<or> op = 45)" by simp
  from Cons.IH [OF this, of ?q] show ?case
    unfolding unfold using d op by (auto simp: od applyOperator_def)
qed


lemma flat_tree_props:
  assumes "\<forall>(op, d) \<in> set ods. d \<le> 9 \<and> anyOperator op"
    and "case left of None \<Rightarrow> True | Some (e, op) \<Rightarrow> op = 43 \<or> op = 45"
  shows "render_expression (flat_tree left p ods)
           = render_expression (attach left p) @ concat (map (\<lambda>(op, d'). [op, 48 + d']) ods)
       \<and> (single_digits_expression (attach left p)
            \<longrightarrow> single_digits_expression (flat_tree left p ods))
       \<and> (no_parentheses_expression (attach left p)
            \<longrightarrow> no_parentheses_expression (flat_tree left p ods))"
  using assms
proof (induction left p ods rule: flat_tree.induct)
  case (1 left p)
  show ?case by simp
next
  case (2 left p op d ods)
  from "2.prems"(1) have d: "d \<le> 9" and op: "anyOperator op"
    and rest: "\<forall>(op, d) \<in> set ods. d \<le> 9 \<and> anyOperator op" by auto
  consider (times) "op = 42" | (over) "op = 47" | (plus) "op = 43" | (minus) "op = 45"
    using op by (auto simp: anyOperator_def)
  then show ?case
  proof cases
    case times
    with "2.IH"(1) [OF times rest "2.prems"(2)] d "2.prems"(2) show ?thesis
      by (cases left) (auto split: prod.splits)
  next
    case over
    then have n: "op \<noteq> 42" by simp
    with "2.IH"(2) [OF n over rest "2.prems"(2)] d over "2.prems"(2) show ?thesis
      by (cases left) (auto split: prod.splits)
  next
    case plus
    then have n: "op \<noteq> 42" "op \<noteq> 47" by simp_all
    have "case Some (attach left p, op) of None \<Rightarrow> True | Some (e, op) \<Rightarrow> op = 43 \<or> op = 45"
      using plus by simp
    from "2.IH"(3) [OF n rest this] d plus show ?thesis by simp
  next
    case minus
    then have n: "op \<noteq> 42" "op \<noteq> 47" by simp_all
    have "case Some (attach left p, op) of None \<Rightarrow> True | Some (e, op) \<Rightarrow> op = 43 \<or> op = 45"
      using minus by simp
    from "2.IH"(3) [OF n rest this] d minus show ?thesis by simp
  qed
qed

lemma flat_expressions_are_trees:
  assumes "d \<le> 9" and "\<forall>(op, d') \<in> set ods. d' \<le> 9 \<and> anyOperator op"
  shows "render_expression (flat_tree None (Factor (Digit d)) ods) = render_chain d ods
       \<and> single_digits_expression (flat_tree None (Factor (Digit d)) ods)
       \<and> no_parentheses_expression (flat_tree None (Factor (Digit d)) ods)"
  using flat_tree_props [OF assms(2), of None "Factor (Digit d)"] assms(1)
  by (simp add: render_chain_def)

text \<open>
  C2. For every expression made of single-digit operands and the four binary operators,
  without parentheses (spaces may be put anywhere), \<^verbatim>\<open>evaluateExpression\<close> returns the value
  that standard precedence gives: \<open>*\<close> and \<open>/\<close> bind tighter than \<open>+\<close> and \<open>-\<close>. Such an
  expression is the text of a tree without \<open>Paren\<close>, and every digit followed by
  operator-digit pairs is the text of such a tree. For \<^verbatim>\<open>2+3*4\<close> the result is 14, not 20.
\<close>

theorem precedence_without_parentheses:
  "(single_digits_expression e \<and> no_parentheses_expression e
      \<and> removeSpaces text = render_expression e
    \<longrightarrow> evaluateExpression F text = Some (Returns (spec_value_expression F e)))
   \<and> (d \<le> 9 \<and> (\<forall>(op, d') \<in> set ods. d' \<le> 9 \<and> anyOperator op)
    \<longrightarrow> (\<exists>e'. single_digits_expression e' \<and> no_parentheses_expression e'
          \<and> render_expression e' = render_chain d ods
          \<and> evaluateExpression F (render_chain d ods)
              = Some (Returns (spec_value_expression F e'))))"
proof (intro conjI impI)
  assume "single_digits_expression e \<and> no_parentheses_expression e
      \<and> removeSpaces text = render_expression e"
  then show "evaluateExpression F text = Some (Returns (spec_value_expression F e))"
    by (simp add: evaluate_rendered)
next
  assume h: "d \<le> 9 \<and> (\<forall>(op, d') \<in> set ods. d' \<le> 9 \<and> anyOperator op)"
  let ?e = "flat_tree None (Factor (Digit d)) ods"
  from h flat_expressions_are_trees [of d ods]
  have t: "render_expression ?e = render_chain d ods" "single_digits_expression ?e"
    "no_parentheses_expression ?e" by simp_all
  from t(1) removeSpaces_rendered [of ?e]
  have "removeSpaces (render_chain d ods) = render_expression ?e" by simp
  with t(2) have "evaluateExpression F (render_chain d ods)
      = Some (Returns (spec_value_expression F ?e))" by (rule evaluate_rendered)
  with t show "\<exists>e'. single_digits_expression e' \<and> no_parentheses_expression e'
          \<and> render_expression e' = render_chain d ods
          \<and> evaluateExpression F (render_chain d ods)
              = Some (Returns (spec_value_expression F e'))" by blast
qed

theorem precedence_without_parentheses_witness:
  "evaluateExpression exact_ops (runes ''2+3*4'') = Some (Returns 14)
   \<and> evaluateExpression exact_ops (runes ''2+3*4'') \<noteq> Some (Returns 20)
   \<and> evaluateExpression exact_ops (runes ''2 * 3 - 4'') = Some (Returns 2)
   \<and> render_chain 2 [(43, 3), (42, 4)] = runes ''2+3*4''
   \<and> (\<exists>e'. no_parentheses_expression e' \<and> render_expression e' = runes ''2+3*4''
         \<and> evaluateExpression exact_ops (runes ''2+3*4'')
             = Some (Returns (spec_value_expression exact_ops e')))"
proof -
  have c: "render_chain 2 [(43, 3), (42, 4)] = runes ''2+3*4''"
    by (simp add: render_chain_def runes_def)
  from precedence_without_parentheses
      [of "Plus (Product (Factor (Digit 2))) (Times (Factor (Digit 3)) (Digit 4))"
          "runes ''2+3*4''" exact_ops 2 "[(43, 3), (42, 4)]"]
  have 1: "evaluateExpression exact_ops (runes ''2+3*4'') = Some (Returns 14)"
    and 3: "\<exists>e'. no_parentheses_expression e' \<and> render_expression e' = runes ''2+3*4''
         \<and> evaluateExpression exact_ops (runes ''2+3*4'')
             = Some (Returns (spec_value_expression exact_ops e'))"
    unfolding c by (auto simp add: runes_def removeSpaces_def exact_ops_def anyOperator_def)
  from precedence_without_parentheses
      [of "Minus (Product (Times (Factor (Digit 2)) (Digit 3))) (Factor (Digit 4))"
          "runes ''2 * 3 - 4''" exact_ops 0 "[]"]
  have 2: "evaluateExpression exact_ops (runes ''2 * 3 - 4'') = Some (Returns 2)"
    by (simp add: runes_def removeSpaces_def exact_ops_def)
  from 1 2 3 c show ?thesis by simp
qed

text \<open>
  C6. For every well-formed expression with parentheses, \<^verbatim>\<open>evaluateExpression\<close> returns the
  value of the grammar, in which a parenthesised subexpression is a factor: it is evaluated
  first, whatever operators it contains and whatever operator it is an operand of. For
  \<^verbatim>\<open>(2+3)*4\<close> the result is 20.
\<close>

theorem parentheses_override_precedence:
  assumes "single_digits_expression e" and "removeSpaces text = render_expression e"
  shows "evaluateExpression F text = Some (Returns (spec_value_expression F e))"
  using assms by (rule evaluate_rendered)

theorem parentheses_override_precedence_witness:
  "evaluateExpression exact_ops (runes ''(2+3)*4'') = Some (Returns 20)
   \<and> evaluateExpression exact_ops (runes ''8/(4-2)'') = Some (Returns 4)"
  using parentheses_override_precedence
      [of "Product (Times (Factor (Paren (Plus (Product (Factor (Digit 2))) (Factor (Digit 3)))))
             (Digit 4))"
          "runes ''(2+3)*4''" exact_ops]
    parentheses_override_precedence
      [of "Product (Over (Factor (Digit 8))
             (Paren (Minus (Product (Factor (Digit 4))) (Factor (Digit 2)))))"
          "runes ''8/(4-2)''" exact_ops]
  by (simp add: runes_def removeSpaces_def exact_ops_def)

text \<open>
  C7. A chain of operators of equal precedence (all of them \<open>*\<close> or \<open>/\<close>, or all of them \<open>+\<close>
  or \<open>-\<close>) is evaluated from left to right; \<^verbatim>\<open>8/4/2\<close> gives 1. \<^verbatim>\<open>performOperation\<close> takes
  \<open>b\<close> from the top of the operand stack and \<open>a\<close> below it and pushes \<open>a / b\<close>.
\<close>

theorem left_to_right_chains:
  "(d \<le> 9 \<and> (\<forall>(op, d') \<in> set ods. d' \<le> 9 \<and> (op = 42 \<or> op = 47))
      \<longrightarrow> evaluateExpression F (render_chain d ods) = Some (Returns (left_to_right F d ods)))
 \<and> (d \<le> 9 \<and> (\<forall>(op, d') \<in> set ods. d' \<le> 9 \<and> (op = 43 \<or> op = 45))
      \<longrightarrow> evaluateExpression F (render_chain d ods) = Some (Returns (left_to_right F d ods)))
 \<and> performOperation F \<lparr> operandStack = vs @ [a, b], operatorStack = os @ [47] \<rparr>
      = \<lparr> operandStack = vs @ [f64_quo F a b], operatorStack = os \<rparr>"
proof (intro conjI impI)
  assume h: "d \<le> 9 \<and> (\<forall>(op, d') \<in> set ods. d' \<le> 9 \<and> (op = 42 \<or> op = 47))"
  let ?e = "Product (product_chain (Factor (Digit d)) ods)"
  from h product_chain_props [of ods "Factor (Digit d)" F]
  have "render_expression ?e = render_chain d ods" "spec_value_expression F ?e = left_to_right F d ods"
    "single_digits_expression ?e"
    by (simp_all add: render_chain_def left_to_right_def)
  with evaluate_rendered [of ?e "render_chain d ods" F] removeSpaces_rendered [of ?e]
  show "evaluateExpression F (render_chain d ods) = Some (Returns (left_to_right F d ods))"
    by simp
next
  assume h: "d \<le> 9 \<and> (\<forall>(op, d') \<in> set ods. d' \<le> 9 \<and> (op = 43 \<or> op = 45))"
  let ?e = "sum_chain (Product (Factor (Digit d))) ods"
  from h sum_chain_props [of ods "Product (Factor (Digit d))" F]
  have "render_expression ?e = render_chain d ods" "spec_value_expression F ?e = left_to_right F d ods"
    "single_digits_expression ?e"
    by (simp_all add: render_chain_def left_to_right_def)
  with evaluate_rendered [of ?e "render_chain d ods" F] removeSpaces_rendered [of ?e]
  show "evaluateExpression F (render_chain d ods) = Some (Returns (left_to_right F d ods))"
    by simp
next
  show "performOperation F \<lparr> operandStack = vs @ [a, b], operatorStack = os @ [47] \<rparr>
      = \<lparr> operandStack = vs @ [f64_quo F a b], operatorStack = os \<rparr>"
    using performOperation_top [of F vs a b os 47] by (simp add: mk_def applyOperator_def)
qed

theorem left_to_right_chains_witness:
  "evaluateExpression exact_ops (runes ''8/4/2'') = Some (Returns 1)
   \<and> evaluateExpression exact_ops (runes ''9-4+2'') = Some (Returns 7)
   \<and> performOperation exact_ops \<lparr> operandStack = [8, 4], operatorStack = [47] \<rparr>
      = \<lparr> operandStack = [2], operatorStack = [] \<rparr>"
  using left_to_right_chains [of 8 "[(47, 4), (47, 2)]" exact_ops "[]" 8 4 "[]"]
    left_to_right_chains [of 9 "[(45, 4), (43, 2)]" exact_ops "[]" 8 4 "[]"]
  by (simp add: render_chain_def left_to_right_def runes_def applyOperator_def exact_ops_def)


text \<open>
  C10. A rune that is none of \<open>+ - * / ( )\<close> and not a space is parsed by \<^verbatim>\<open>ParseFloat\<close> with
  the error discarded: a digit pushes its value, every other such rune pushes 0, and the
  expression is not rejected.
\<close>

theorem other_runes_are_operands:
  assumes "char \<notin> {43, 45, 42, 47, 40, 41, 32}"
  shows "scanRune F char s =
           Some (s\<lparr> operandStack := operandStack s @
             [if 48 \<le> char \<and> char \<le> 57 then f64_digit F (char - 48) else f64_digit F 0] \<rparr>)
       \<and> evaluateExpression F [char] =
           Some (Returns (if 48 \<le> char \<and> char \<le> 57 then f64_digit F (char - 48) else f64_digit F 0))"
proof
  show "scanRune F char s =
           Some (s\<lparr> operandStack := operandStack s @
             [if 48 \<le> char \<and> char \<le> 57 then f64_digit F (char - 48) else f64_digit F 0] \<rparr>)"
    using assms by (simp add: scanRune_def parseFloat_def)
next
  have "reduceWhile F anything \<lparr> operandStack = [v], operatorStack = [] \<rparr>
      = Some \<lparr> operandStack = [v], operatorStack = [] \<rparr>" for v :: 'a
    by (simp add: reduceWhile_stop)
  then show "evaluateExpression F [char] =
           Some (Returns (if 48 \<le> char \<and> char \<le> 57 then f64_digit F (char - 48) else f64_digit F 0))"
    using assms by (simp add: evaluateExpression_def removeSpaces_def scanRune_def parseFloat_def)
qed

theorem other_runes_are_operands_witness:
  "evaluateExpression exact_ops (runes ''a'') = Some (Returns 0)
   \<and> evaluateExpression exact_ops (runes ''7'') = Some (Returns 7)
   \<and> scanRune exact_ops 97 \<lparr> operandStack = [1], operatorStack = [43] \<rparr>
       = Some \<lparr> operandStack = [1, 0], operatorStack = [43] \<rparr>"
  using other_runes_are_operands [of 97 exact_ops "\<lparr> operandStack = [1], operatorStack = [43] \<rparr>"]
    other_runes_are_operands [of 55 exact_ops "\<lparr> operandStack = [], operatorStack = [] \<rparr>"]
  by (simp add: runes_def exact_ops_def)

section \<open>Expressions on which the evaluator does not return a number\<close>

text \<open>
  A loop whose condition holds while fewer than two operands are on the stack never ends:
  \<^verbatim>\<open>performOperation\<close> returns at its guard and the operator stays. So an expression with a
  trailing operator keeps the agent in \<^verbatim>\<open>evaluateExpression\<close> for ever, and the empty
  expression makes \<^verbatim>\<open>operandStack[0]\<close> panic.
\<close>

lemma reduceWhile_returns_unstuck:
  assumes "reduceWhile F cond s = Some y"
  shows "\<not> (length (operandStack s) < 2 \<and> operatorStack s \<noteq> []
      \<and> cond (last (operatorStack s)))"
proof (rule reduceWhile.raw_induct
    [where P = "\<lambda>F cond s y. \<not> (length (operandStack s) < 2 \<and> operatorStack s \<noteq> []
      \<and> cond (last (operatorStack s)))", OF _ assms])
  fix rw :: "'a float64_ops \<Rightarrow> (rune \<Rightarrow> bool) \<Rightarrow> 'a stacks \<Rightarrow> 'a stacks option"
    and F cond s y
  assume IH: "\<And>F cond s y. rw F cond s = Some y \<Longrightarrow>
      \<not> (length (operandStack s) < 2 \<and> operatorStack s \<noteq> [] \<and> cond (last (operatorStack s)))"
    and body: "(if length (operatorStack s) > 0 \<and> cond (last (operatorStack s))
      then rw F cond (performOperation F s) else Some s) = Some y"
  show "\<not> (length (operandStack s) < 2 \<and> operatorStack s \<noteq> []
      \<and> cond (last (operatorStack s)))"
  proof
    assume stuck: "length (operandStack s) < 2 \<and> operatorStack s \<noteq> []
        \<and> cond (last (operatorStack s))"
    then have "performOperation F s = s" by (simp add: performOperation_def)
    with body stuck have "rw F cond s = Some y" by simp
    from IH [OF this] stuck show False by simp
  qed
qed

lemma reduceWhile_stuck:
  assumes "length (operandStack s) < 2" and "operatorStack s \<noteq> []"
    and "cond (last (operatorStack s))"
  shows "reduceWhile F cond s = None"
proof (cases "reduceWhile F cond s")
  case None
  then show ?thesis .
next
  case (Some y)
  from reduceWhile_returns_unstuck [OF this] assms show ?thesis by simp
qed

lemma trailing_operator_never_returns:
  "evaluateExpression F (runes ''2+'') = None"
proof -
  have "reduceWhile F anything \<lparr> operandStack = [f64_digit F 2], operatorStack = [43] \<rparr> = None"
    by (rule reduceWhile_stuck) (simp_all add: anything_def)
  then show ?thesis
    by (simp add: evaluateExpression_def runes_def removeSpaces_def scanRune_def parseFloat_def
        reduceWhile_stop)
qed

lemma empty_expression_panics:
  "evaluateExpression F [] = Some IndexOutOfRange"
  by (simp add: evaluateExpression_def removeSpaces_def reduceWhile_stop)

lemma evaluate_23: "evaluateExpression exact_ops (runes ''23'') = Some (Returns 2)"
  by (simp add: evaluateExpression_def runes_def removeSpaces_def scanRune_def parseFloat_def
      reduceWhile_stop exact_ops_def)

section \<open>The invariants hold in every state a run reaches\<close>

lemma consistent_initial: "consistent initial"
  by (simp add: consistent_def initial_def startAgents_def)

lemma unsent_not_held:
  assumes "consistent s" and "handlerLine s a \<noteq> Line57" and "handlerLine s a \<noteq> Returned"
  shows "agentLine s w \<noteq> Some (Line100 a)" "agentLine s w \<noteq> Some (Line103 a)"
    "agentLine s w \<noteq> Some (Line106 a)" "a \<notin> set (taskChannel s)"
  using assms unfolding consistent_def by blast+

lemma unappended_not_registered:
  assumes "consistent s" and "handlerLine s a \<noteq> Line55"
    and "handlerLine s a \<noteq> Line57" and "handlerLine s a \<noteq> Returned"
  shows "a \<notin> set (tasks s)"
  using assms unfolding consistent_def by blast

lemma consistent_request:
  assumes "consistent s"
  shows "consistent (s\<lparr> heap := (heap s)(allocated s \<mapsto> body),
                   allocated := allocated s + 1,
                   handlerLine := (handlerLine s)(allocated s := Line48) \<rparr>)"
proof -
  have fresh: "handlerLine s (allocated s) = NoHandler"
    using assms by (simp add: consistent_def)
  note n = unsent_not_held [OF assms, of "allocated s"] unappended_not_registered [OF assms, of "allocated s"]
  show ?thesis
    using assms fresh n unfolding consistent_def status_def
    by auto
qed


lemma consistent_handlerStep:
  assumes "consistent s" and "handlerStep a s = Some s'"
  shows "consistent s'"
proof (cases "handlerLine s a")
  case NoHandler
  with assms(2) show ?thesis by (simp add: handlerStep_def split: option.splits)
next
  case Returned
  with assms(2) show ?thesis by (simp add: handlerStep_def split: option.splits)
next
  case Line48
  note n = unsent_not_held [OF assms(1), of a] unappended_not_registered [OF assms(1), of a]
  from assms(2) Line48 obtain task where "heap s a = Some task"
    "s' = s\<lparr> heap := (heap s)(a \<mapsto> task\<lparr> ID := nextTaskID s \<rparr>),
             handlerLine := (handlerLine s)(a := Line49) \<rparr>"
    by (auto simp: handlerStep_def split: option.splits)
  then show ?thesis
    using assms(1) Line48 n unfolding consistent_def status_def by auto
next
  case Line49
  note n = unsent_not_held [OF assms(1), of a] unappended_not_registered [OF assms(1), of a]
  from assms(2) Line49 have "s' = s\<lparr> nextTaskID := nextTaskID s + 1,
             handlerLine := (handlerLine s)(a := Line50) \<rparr>"
    by (auto simp: handlerStep_def split: option.splits)
  then show ?thesis
    using assms(1) Line49 n unfolding consistent_def status_def by auto
next
  case Line50
  note n = unsent_not_held [OF assms(1), of a] unappended_not_registered [OF assms(1), of a]
  from assms(2) Line50 obtain task where "heap s a = Some task"
    "s' = s\<lparr> heap := (heap s)(a \<mapsto> task\<lparr> Status := ''queued'' \<rparr>),
             handlerLine := (handlerLine s)(a := Line52) \<rparr>"
    by (auto simp: handlerStep_def split: option.splits)
  then show ?thesis
    using assms(1) Line50 n unfolding consistent_def status_def by auto
next
  case Line52
  note n = unsent_not_held [OF assms(1), of a] unappended_not_registered [OF assms(1), of a]
  from assms(2) Line52 have "s' = s\<lparr> tasks := tasks s @ [a],
             handlerLine := (handlerLine s)(a := Line55) \<rparr>"
    by (auto simp: handlerStep_def split: option.splits)
  then show ?thesis
    using assms(1) Line52 n unfolding consistent_def status_def by auto
next
  case Line55
  note n = unsent_not_held [OF assms(1), of a]
  from assms(2) Line55 have "s' = s\<lparr> taskChannel := taskChannel s @ [a],
             handlerLine := (handlerLine s)(a := Line57) \<rparr>"
    by (auto simp: handlerStep_def split: option.splits if_splits)
  then show ?thesis
    using assms(1) Line55 n unfolding consistent_def status_def by auto
next
  case Line57
  from assms(2) Line57 have "s' = s\<lparr> handlerLine := (handlerLine s)(a := Returned) \<rparr>"
    by (auto simp: handlerStep_def split: option.splits)
  then show ?thesis
    using assms(1) Line57 unfolding consistent_def status_def by auto
qed


lemma consistent_agentStep:
  assumes "consistent s" and "agentStep F w s = Some s'"
  shows "consistent s'"
proof (cases "agentLine s w")
  case None
  with assms(2) show ?thesis by (simp add: agentStep_def)
next
  case (Some pc)
  show ?thesis
  proof (cases pc)
    case Line99
    with assms(2) Some obtain a rest where c: "taskChannel s = a # rest"
      and s': "s' = s\<lparr> taskChannel := rest, agentLine := (agentLine s)(w \<mapsto> Line100 a) \<rparr>"
      by (auto simp: agentStep_def split: list.splits)
    from assms(1) c have a: "handlerLine s a = Line57 \<or> handlerLine s a = Returned"
      "status s a = Some ''queued''"
      "\<And>w. agentLine s w \<noteq> Some (Line100 a)" "\<And>w. agentLine s w \<noteq> Some (Line103 a)"
      "\<And>w. agentLine s w \<noteq> Some (Line106 a)" "a \<notin> set rest" "distinct rest"
      unfolding consistent_def by auto
    show ?thesis
      using assms(1) Some Line99 a c unfolding consistent_def s' status_def by auto
  next
    case (Line100 a)
    with assms(2) Some obtain task where "heap s a = Some task"
      and s': "s' = s\<lparr> heap := (heap s)(a \<mapsto> task\<lparr> Status := ''calculated'' \<rparr>),
                  agentLine := (agentLine s)(w \<mapsto> Line103 a) \<rparr>"
      by (auto simp: agentStep_def split: option.splits)
    from assms(1) Some Line100 have a: "handlerLine s a = Line57 \<or> handlerLine s a = Returned"
      "\<And>w'. agentLine s w' = Some (Line100 a) \<Longrightarrow> w' = w"
      "\<And>w. agentLine s w \<noteq> Some (Line103 a)"
      "\<And>w. agentLine s w \<noteq> Some (Line106 a)" "a \<notin> set (taskChannel s)"
      unfolding consistent_def by blast+
    from a(1) have b: "handlerLine s a \<noteq> Line52" "handlerLine s a \<noteq> Line55" by auto
    show ?thesis
      using assms(1) Some Line100 a b unfolding consistent_def s' status_def by auto
  next
    case (Line103 a)
    from assms(1) Some Line103 have a: "handlerLine s a = Line57 \<or> handlerLine s a = Returned"
      "\<And>w'. agentLine s w' = Some (Line103 a) \<Longrightarrow> w' = w"
      "\<And>w. agentLine s w \<noteq> Some (Line100 a)"
      "\<And>w. agentLine s w \<noteq> Some (Line106 a)" "a \<notin> set (taskChannel s)"
      "status s a = Some ''calculated''"
      unfolding consistent_def by blast+
    from a(1) have b: "handlerLine s a \<noteq> Line52" "handlerLine s a \<noteq> Line55" by auto
    from assms(2) Some Line103 consider (crash) "s' = s\<lparr> panicked := True \<rparr>"
      | (returned) task v where "heap s a = Some task"
          "s' = s\<lparr> heap := (heap s)(a \<mapsto> task\<lparr> Result := v \<rparr>),
                  agentLine := (agentLine s)(w \<mapsto> Line106 a) \<rparr>"
      by (auto simp: agentStep_def split: option.splits outcome.splits)
    then show ?thesis
    proof cases
      case crash
      have "consistent (s\<lparr> panicked := True \<rparr>) = consistent s"
        by (simp add: consistent_def status_def)
      with assms(1) crash show ?thesis by simp
    next
      case returned
      then show ?thesis
        using assms(1) Some Line103 a b unfolding consistent_def status_def by auto
    qed
  next
    case (Line106 a)
    with assms(2) Some obtain task where "heap s a = Some task"
      and s': "s' = s\<lparr> heap := (heap s)(a \<mapsto> task\<lparr> Status := ''completed'' \<rparr>),
                  agentLine := (agentLine s)(w \<mapsto> Line99) \<rparr>"
      by (auto simp: agentStep_def split: option.splits)
    from assms(1) Some Line106 have a: "handlerLine s a = Line57 \<or> handlerLine s a = Returned"
      "\<And>w'. agentLine s w' = Some (Line106 a) \<Longrightarrow> w' = w"
      "\<And>w. agentLine s w \<noteq> Some (Line100 a)"
      "\<And>w. agentLine s w \<noteq> Some (Line103 a)" "a \<notin> set (taskChannel s)"
      unfolding consistent_def by blast+
    from a(1) have b: "handlerLine s a \<noteq> Line52" "handlerLine s a \<noteq> Line55" by auto
    show ?thesis
      using assms(1) Some Line106 a b unfolding consistent_def s' status_def by auto
  qed
qed

lemma consistent_step:
  assumes "consistent s" and "step F ev s = Some s'"
  shows "consistent s'"
proof (cases ev)
  case (Request body)
  with assms(2) have "s' = s\<lparr> heap := (heap s)(allocated s \<mapsto> body),
                   allocated := allocated s + 1,
                   handlerLine := (handlerLine s)(allocated s := Line48) \<rparr>"
    by (auto simp: step_def split: if_splits)
  then show ?thesis using consistent_request [OF assms(1)] by simp
next
  case (HandlerStep a)
  with assms(2) have "handlerStep a s = Some s'" by (auto simp: step_def split: if_splits)
  with assms(1) show ?thesis by (rule consistent_handlerStep)
next
  case (AgentStep w)
  with assms(2) have "agentStep F w s = Some s'" by (auto simp: step_def split: if_splits)
  with assms(1) show ?thesis by (rule consistent_agentStep)
qed

lemma consistent_run:
  "consistent s \<Longrightarrow> run F es s = Some s' \<Longrightarrow> consistent s'"
  by (induction es arbitrary: s) (auto split: option.splits dest: consistent_step)


lemma evaluated_simps [simp]:
  "evaluated F (task\<lparr> Status := x \<rparr>) = evaluated F task"
  "evaluated F (task\<lparr> ID := i \<rparr>) = evaluated F task"
  by (simp_all add: evaluated_def)

lemma results_recordedD:
  assumes "results_recorded F s"
  shows "\<And>w a task. agentLine s w = Some (Line106 a) \<Longrightarrow> heap s a = Some task \<Longrightarrow> evaluated F task"
    and "\<And>a task. handlerLine s a = Line52 \<Longrightarrow> heap s a = Some task \<Longrightarrow> Status task = ''completed''
           \<Longrightarrow> evaluated F task"
    and "\<And>a task. handlerLine s a = Line55 \<Longrightarrow> heap s a = Some task \<Longrightarrow> Status task = ''completed''
           \<Longrightarrow> evaluated F task"
    and "\<And>a task. handlerLine s a = Line57 \<Longrightarrow> heap s a = Some task \<Longrightarrow> Status task = ''completed''
           \<Longrightarrow> evaluated F task"
    and "\<And>a task. handlerLine s a = Returned \<Longrightarrow> heap s a = Some task \<Longrightarrow> Status task = ''completed''
           \<Longrightarrow> evaluated F task"
  using assms unfolding results_recorded_def by blast+

lemma results_recorded_initial: "results_recorded F initial"
  by (simp add: results_recorded_def initial_def startAgents_def)

lemma results_recorded_step:
  assumes "consistent s" and "results_recorded F s" and "step F ev s = Some s'"
  shows "results_recorded F s'"
proof (cases ev)
  case (Request body)
  have fresh: "handlerLine s (allocated s) = NoHandler"
    using assms(1) by (simp add: consistent_def)
  note n = unsent_not_held [OF assms(1), of "allocated s"]
  from Request assms(3) have "s' = s\<lparr> heap := (heap s)(allocated s \<mapsto> body),
                   allocated := allocated s + 1,
                   handlerLine := (handlerLine s)(allocated s := Line48) \<rparr>"
    by (auto simp: step_def split: if_splits)
  then show ?thesis
    using assms(2) fresh n unfolding results_recorded_def
    by (auto; blast)
next
  case (HandlerStep a)
  with assms(3) have hs: "handlerStep a s = Some s'" by (auto simp: step_def split: if_splits)
  show ?thesis
  proof (cases "handlerLine s a = Line57 \<or> handlerLine s a = Returned")
    case True
    with hs have "s' = s\<lparr> handlerLine := (handlerLine s)(a := Returned) \<rparr>"
      by (auto simp: handlerStep_def split: option.splits)
    then show ?thesis using assms(2) True unfolding results_recorded_def
      by (auto; blast)
  next
    case False
    note n = unsent_not_held [OF assms(1), of a]
    from assms(1) have q: "handlerLine s a = Line52 \<or> handlerLine s a = Line55
        \<Longrightarrow> status s a = Some ''queued''"
      unfolding consistent_def by blast
    show ?thesis
      using hs assms(2) False n q unfolding results_recorded_def status_def
      by (auto simp: handlerStep_def split: option.splits handler_pc.splits if_splits; blast)
  qed
next
  case (AgentStep w)
  with assms(3) have as: "agentStep F w s = Some s'" by (auto simp: step_def split: if_splits)
  show ?thesis
  proof (cases "agentLine s w")
    case None
    with as show ?thesis by (simp add: agentStep_def)
  next
    case (Some pc)
    show ?thesis
    proof (cases pc)
      case Line99
      with as Some obtain a rest where c: "taskChannel s = a # rest"
        and s': "s' = s\<lparr> taskChannel := rest, agentLine := (agentLine s)(w \<mapsto> Line100 a) \<rparr>"
        by (auto simp: agentStep_def split: list.splits)
      show ?thesis
        using assms(2) Some Line99 unfolding results_recorded_def s'
        by (auto; blast)
    next
      case (Line100 a)
      with as Some obtain task where "heap s a = Some task"
        and s': "s' = s\<lparr> heap := (heap s)(a \<mapsto> task\<lparr> Status := ''calculated'' \<rparr>),
                    agentLine := (agentLine s)(w \<mapsto> Line103 a) \<rparr>"
        by (auto simp: agentStep_def split: option.splits)
      from assms(1) Some Line100 have a: "\<And>w. agentLine s w \<noteq> Some (Line106 a)"
        unfolding consistent_def by blast
      show ?thesis
        using assms(2) Some Line100 a \<open>heap s a = Some task\<close>
        unfolding results_recorded_def s'
        by (auto; blast)
    next
      case (Line103 a)
      from assms(1) Some Line103 have a: "\<And>w. agentLine s w \<noteq> Some (Line106 a)"
        "status s a = Some ''calculated''"
        unfolding consistent_def by blast+
      from as Some Line103 consider (crash) "s' = s\<lparr> panicked := True \<rparr>"
        | (returned) task v where "heap s a = Some task"
            "evaluateExpression F (Expression task) = Some (Returns v)"
            "s' = s\<lparr> heap := (heap s)(a \<mapsto> task\<lparr> Result := v \<rparr>),
                    agentLine := (agentLine s)(w \<mapsto> Line106 a) \<rparr>"
        by (auto simp: agentStep_def split: option.splits outcome.splits)
      then show ?thesis
      proof cases
        case crash
        have "results_recorded F (s\<lparr> panicked := True \<rparr>) = results_recorded F s"
          by (simp add: results_recorded_def)
        with assms(2) crash show ?thesis by simp
      next
        case returned
        then show ?thesis
          using assms(2) Some Line103 a unfolding results_recorded_def status_def
          by (auto simp: evaluated_def; blast)
      qed
    next
      case (Line106 a)
      with as Some obtain task where t: "heap s a = Some task"
        and s': "s' = s\<lparr> heap := (heap s)(a \<mapsto> task\<lparr> Status := ''completed'' \<rparr>),
                    agentLine := (agentLine s)(w \<mapsto> Line99) \<rparr>"
        by (auto simp: agentStep_def split: option.splits)
      from Some Line106 have at: "agentLine s w = Some (Line106 a)" by simp
      from at t have ev: "evaluated F task"
        by (rule results_recordedD(1) [OF assms(2)])
      have 1: "evaluated F t'" if "agentLine s' w' = Some (Line106 b)" and "heap s' b = Some t'"
        for w' b t'
      proof -
        from that(1) have w': "agentLine s w' = Some (Line106 b)"
          unfolding s' by (auto split: if_splits)
        show ?thesis
        proof (cases "b = a")
          case True
          with that(2) ev show ?thesis unfolding s' by auto
        next
          case False
          with that(2) have "heap s b = Some t'" unfolding s' by simp
          with w' show ?thesis by (rule results_recordedD(1) [OF assms(2)])
        qed
      qed
      have 2: "evaluated F t'"
        if "handlerLine s' b = Line52 \<or> handlerLine s' b = Line55 \<or> handlerLine s' b = Line57
              \<or> handlerLine s' b = Returned"
          and "heap s' b = Some t'" and "Status t' = ''completed''"
        for b t'
      proof (cases "b = a")
        case True
        with that(2) ev show ?thesis unfolding s' by auto
      next
        case False
        with that(2) have "heap s b = Some t'" unfolding s' by simp
        moreover from that(1) have "handlerLine s b = Line52 \<or> handlerLine s b = Line55
            \<or> handlerLine s b = Line57 \<or> handlerLine s b = Returned"
          unfolding s' by simp
        ultimately show ?thesis
          using that(3) results_recordedD(2-5) [OF assms(2), of b t'] by blast
      qed
      show ?thesis
        unfolding results_recorded_def using 1 2 by blast
    qed
  qed
qed

lemma invariants_run:
  "consistent s \<Longrightarrow> results_recorded F s \<Longrightarrow> run F es s = Some s'
     \<Longrightarrow> consistent s' \<and> results_recorded F s'"
proof (induction es arbitrary: s)
  case Nil
  then show ?case by simp
next
  case (Cons ev es)
  from Cons.prems(3) obtain s1 where s1: "step F ev s = Some s1" "run F es s1 = Some s'"
    by (auto split: option.splits)
  from Cons.prems(1) s1(1) have "consistent s1" by (rule consistent_step)
  moreover from Cons.prems(1,2) s1(1) have "results_recorded F s1" by (rule results_recorded_step)
  ultimately show ?case using s1(2) by (rule Cons.IH)
qed

lemma reachable_invariants:
  "run F es initial = Some s \<Longrightarrow> consistent s \<and> results_recorded F s"
  using invariants_run [OF consistent_initial results_recorded_initial] .

lemmas run_defs = step_def handlerStep_def agentStep_def initial_def startAgents_def submission_def

lemma evaluate_2_plus_3: "evaluateExpression exact_ops (runes ''2+3'') = Some (Returns 5)"
  by (simp add: evaluateExpression_def runes_def removeSpaces_def scanRune_def parseFloat_def
      reduceWhile.simps [of _ _ "\<lparr> operandStack = [a, b], operatorStack = [43] \<rparr>" for a b]
      reduceWhile_stop performOperation_def exact_ops_def anything_def anyOperator_def)

section \<open>The status of a task\<close>






section \<open>The dispatch queue\<close>

lemma step_channel:
  assumes "step F ev s = Some s1"
  shows "taskChannel s @ sends ev s = receives ev s @ taskChannel s1
       \<and> (length (taskChannel s) \<le> 100 \<longrightarrow> length (taskChannel s1) \<le> 100)"
proof (cases ev)
  case (Request body)
  with assms show ?thesis by (auto simp: step_def sends_def receives_def split: if_splits)
next
  case (HandlerStep a)
  with assms show ?thesis
    by (auto simp: step_def handlerStep_def sends_def receives_def
          split: if_splits option.splits handler_pc.splits)
next
  case (AgentStep w)
  with assms show ?thesis
    by (auto simp: step_def agentStep_def sends_def receives_def
          split: if_splits option.splits agent_pc.splits list.splits outcome.splits)
qed

lemma run_channel:
  "run F es s = Some s' \<Longrightarrow>
     taskChannel s @ enqueued F es s = dequeued F es s @ taskChannel s'
     \<and> (length (taskChannel s) \<le> 100 \<longrightarrow> length (taskChannel s') \<le> 100)"
proof (induction es arbitrary: s)
  case Nil
  then show ?case by simp
next
  case (Cons ev es)
  from Cons.prems obtain s1 where s1: "step F ev s = Some s1" "run F es s1 = Some s'"
    by (auto split: option.splits)
  from step_channel [OF s1(1)] have a: "taskChannel s @ sends ev s = receives ev s @ taskChannel s1"
    and la: "length (taskChannel s) \<le> 100 \<longrightarrow> length (taskChannel s1) \<le> 100" by simp_all
  from Cons.IH [OF s1(2)]
  have b: "taskChannel s1 @ enqueued F es s1 = dequeued F es s1 @ taskChannel s'"
    and lb: "length (taskChannel s1) \<le> 100 \<longrightarrow> length (taskChannel s') \<le> 100" by simp_all
  have "taskChannel s @ enqueued F (ev # es) s = (taskChannel s @ sends ev s) @ enqueued F es s1"
    using s1(1) by simp
  also have "\<dots> = receives ev s @ (taskChannel s1 @ enqueued F es s1)"
    using a by simp
  also have "\<dots> = dequeued F (ev # es) s @ taskChannel s'"
    using b s1(1) by simp
  finally show ?case using la lb by simp
qed

text \<open>
  C8. \<^verbatim>\<open>taskChannel\<close> never holds more than 100 pointers; a handler at its send (line 55) takes
  a step exactly when fewer than 100 are pending, and then appends its pointer at the end;
  an agent at its receive (line 99) takes a step exactly when the channel is not empty, and
  then takes the oldest pointer; and the pointers received by the agents, in the order of
  the receives, followed by the pointers still in the channel, are the pointers sent, in
  the order of the sends.
\<close>

theorem dispatch_queue_fifo:
  assumes "run F es initial = Some s"
  shows "length (taskChannel s) \<le> 100
       \<and> enqueued F es initial = dequeued F es initial @ taskChannel s
       \<and> (\<forall>a. handlerLine s a = Line55 \<and> \<not> panicked s \<longrightarrow>
            step F (HandlerStep a) s =
              (if length (taskChannel s) < 100
               then Some (s\<lparr> taskChannel := taskChannel s @ [a],
                             handlerLine := (handlerLine s)(a := Line57) \<rparr>)
               else None))
       \<and> (\<forall>w. agentLine s w = Some Line99 \<and> \<not> panicked s \<longrightarrow>
            step F (AgentStep w) s =
              (case taskChannel s of
                 [] \<Rightarrow> None
               | a # rest \<Rightarrow> Some (s\<lparr> taskChannel := rest,
                                      agentLine := (agentLine s)(w \<mapsto> Line100 a) \<rparr>)))"
proof -
  from assms have c: "consistent s" using reachable_invariants by blast
  from run_channel [OF assms] have 1: "length (taskChannel s) \<le> 100"
    and 2: "enqueued F es initial = dequeued F es initial @ taskChannel s"
    by (simp_all add: initial_def)
  have 3: "step F (HandlerStep a) s =
              (if length (taskChannel s) < 100
               then Some (s\<lparr> taskChannel := taskChannel s @ [a],
                             handlerLine := (handlerLine s)(a := Line57) \<rparr>)
               else None)" if "handlerLine s a = Line55" "\<not> panicked s" for a
  proof -
    from c that(1) have "heap s a \<noteq> None" unfolding consistent_def by auto
    with that show ?thesis by (auto simp: step_def handlerStep_def)
  qed
  have 4: "step F (AgentStep w) s =
              (case taskChannel s of
                 [] \<Rightarrow> None
               | a # rest \<Rightarrow> Some (s\<lparr> taskChannel := rest,
                                      agentLine := (agentLine s)(w \<mapsto> Line100 a) \<rparr>))"
    if "agentLine s w = Some Line99" "\<not> panicked s" for w
    using that by (simp add: step_def agentStep_def)
  from 1 2 3 4 show ?thesis by blast
qed


theorem dispatch_queue_fifo_witness:
  "\<exists>s. run exact_ops
       [Request (submission ''1''), HandlerStep 0, HandlerStep 0, HandlerStep 0, HandlerStep 0,
        HandlerStep 0, Request (submission ''2''), HandlerStep 1, HandlerStep 1, HandlerStep 1,
        HandlerStep 1, HandlerStep 1, AgentStep 2] initial = Some s
     \<and> enqueued exact_ops
       [Request (submission ''1''), HandlerStep 0, HandlerStep 0, HandlerStep 0, HandlerStep 0,
        HandlerStep 0, Request (submission ''2''), HandlerStep 1, HandlerStep 1, HandlerStep 1,
        HandlerStep 1, HandlerStep 1, AgentStep 2] initial = [0, 1]
     \<and> dequeued exact_ops
       [Request (submission ''1''), HandlerStep 0, HandlerStep 0, HandlerStep 0, HandlerStep 0,
        HandlerStep 0, Request (submission ''2''), HandlerStep 1, HandlerStep 1, HandlerStep 1,
        HandlerStep 1, HandlerStep 1, AgentStep 2] initial = [0]
     \<and> taskChannel s = [1] \<and> length (taskChannel s) \<le> 100
     \<and> agentLine s 1 = Some Line99 \<and> \<not> panicked s
     \<and> step exact_ops (AgentStep 1) s
         = Some (s\<lparr> taskChannel := [], agentLine := (agentLine s)(1 \<mapsto> Line100 1) \<rparr>)"
proof -
  let ?es = "[Request (submission ''1''), HandlerStep 0, HandlerStep 0, HandlerStep 0,
        HandlerStep 0, HandlerStep 0, Request (submission ''2''), HandlerStep 1, HandlerStep 1,
        HandlerStep 1, HandlerStep 1, HandlerStep 1, AgentStep 2]"
  define s where "s = the (run exact_ops ?es initial)"
  have r: "run exact_ops ?es initial = Some s"
    unfolding s_def by (simp add: run_defs)
  have c: "taskChannel s = [1]" "agentLine s 1 = Some Line99" "\<not> panicked s"
    unfolding s_def by (simp_all add: run_defs)
  have d: "dequeued exact_ops ?es initial = [0]"
    by (simp add: run_defs receives_def)
  from dispatch_queue_fifo [OF r] c d
  have "length (taskChannel s) \<le> 100" "enqueued exact_ops ?es initial = [0, 1]"
    "step exact_ops (AgentStep 1) s
         = Some (s\<lparr> taskChannel := [], agentLine := (agentLine s)(1 \<mapsto> Line100 1) \<rparr>)"
    by simp_all
  with r c d show ?thesis by blast
qed

section \<open>Identifiers\<close>

lemma serial_initial: "serial initial"
  by (simp add: serial_def serialOn_def initial_def critical_def)

lemma serialOn_request:
  assumes "serialOn hl ts ids n" and "hl a = NoHandler" and "a \<notin> set ts"
  shows "serialOn (hl(a := Line48)) ts (ids(a := x)) n"
proof -
  have c: "critical ((hl(a := Line48)) b) = critical (hl b)" for b
    using assms(2) by (simp add: critical_def)
  have k: "k < length ts \<Longrightarrow> ts ! k \<noteq> a" for k
    using assms(3) nth_mem by metis
  show ?thesis
    using assms(1,2) unfolding serialOn_def c by (auto simp: k)
qed

lemma serialOn_48:
  assumes "serialOn hl ts ids n" and "hl a = Line48" and "\<forall>b. \<not> critical (hl b)" and "a \<notin> set ts"
  shows "serialOn (hl(a := Line49)) ts (ids(a := Some n)) n"
proof -
  have c: "critical ((hl(a := Line49)) b) = (b = a)" for b
    using assms(3) by (simp add: critical_def)
  have k: "k < length ts \<Longrightarrow> ts ! k \<noteq> a" for k
    using assms(4) nth_mem by metis
  from assms(1,3) have n: "n = int (length ts) + 1" unfolding serialOn_def by blast
  from assms(3) have l: "hl b \<noteq> Line49" "hl b \<noteq> Line50" "hl b \<noteq> Line52" for b
    unfolding critical_def by auto
  show ?thesis
    using assms(1) unfolding serialOn_def c by (auto simp: k n l)
qed

lemma only_critical:
  assumes "serialOn hl ts ids n" and "critical (hl a)"
  shows "critical (hl b) \<longleftrightarrow> b = a"
  using assms unfolding serialOn_def by blast

lemma serialOn_49:
  assumes "serialOn hl ts ids n" and "hl a = Line49"
  shows "serialOn (hl(a := Line50)) ts ids (n + 1)"
proof -
  from assms(2) have ca: "critical (hl a)" by (simp add: critical_def)
  note o = only_critical [OF assms(1) ca]
  have c: "critical ((hl(a := Line50)) b) = (b = a)" for b
    using o [of b] by (auto simp: critical_def)
  have l: "hl b = Line49 \<or> hl b = Line50 \<or> hl b = Line52 \<longleftrightarrow> b = a" for b
    using o [of b] by (auto simp: critical_def)
  from assms have n: "n = int (length ts) + 1" "ids a = Some (int (length ts) + 1)"
    unfolding serialOn_def by blast+
  show ?thesis
    using assms(1) l unfolding serialOn_def c by (auto simp: n)
qed

lemma serialOn_50:
  assumes "serialOn hl ts ids n" and "hl a = Line50"
  shows "serialOn (hl(a := Line52)) ts ids n"
proof -
  from assms(2) have ca: "critical (hl a)" by (simp add: critical_def)
  note o = only_critical [OF assms(1) ca]
  have c: "critical ((hl(a := Line52)) b) = (b = a)" for b
    using o [of b] by (auto simp: critical_def)
  have l: "hl b = Line49 \<or> hl b = Line50 \<or> hl b = Line52 \<longleftrightarrow> b = a" for b
    using o [of b] by (auto simp: critical_def)
  from assms have n: "n = int (length ts) + 2" "ids a = Some (int (length ts) + 1)"
    unfolding serialOn_def by blast+
  show ?thesis
    using assms(1) l unfolding serialOn_def c by (auto simp: n)
qed

lemma serialOn_52:
  assumes "serialOn hl ts ids n" and "hl a = Line52"
  shows "serialOn (hl(a := Line55)) (ts @ [a]) ids n"
proof -
  from assms(2) have ca: "critical (hl a)" by (simp add: critical_def)
  note o = only_critical [OF assms(1) ca]
  have c: "critical ((hl(a := Line55)) b) = False" for b
    using o [of b] by (auto simp: critical_def)
  have l: "hl b = Line49 \<or> hl b = Line50 \<or> hl b = Line52 \<longleftrightarrow> b = a" for b
    using o [of b] by (auto simp: critical_def)
  from assms have n: "n = int (length ts) + 2" "ids a = Some (int (length ts) + 1)"
    unfolding serialOn_def by blast+
  show ?thesis
    using assms(1) l unfolding serialOn_def c by (auto simp: n nth_append)
qed

lemma serialOn_later:
  assumes "serialOn hl ts ids n" and "\<not> critical (hl a)" and "\<not> critical l"
    and "hl a \<noteq> Line48" and "l \<noteq> Line48"
  shows "serialOn (hl(a := l)) ts ids n"
proof -
  have c: "critical ((hl(a := l)) b) = critical (hl b)" for b
    using assms(2,3) by simp
  show ?thesis
    using assms unfolding serialOn_def c by (auto simp: critical_def)
qed


lemma serial_step:
  assumes c: "consistent s" and i: "serial s" and st: "step F ev s = Some s'"
    and ex: "entersAlone ev s"
  shows "serial s'"
proof (cases ev)
  case (Request body)
  from c have fresh: "handlerLine s (allocated s) = NoHandler" by (simp add: consistent_def)
  then have r: "allocated s \<notin> set (tasks s)"
    using unappended_not_registered [OF c, of "allocated s"] by simp
  from Request st have s': "s' = s\<lparr> heap := (heap s)(allocated s \<mapsto> body),
                   allocated := allocated s + 1,
                   handlerLine := (handlerLine s)(allocated s := Line48) \<rparr>"
    by (auto simp: step_def split: if_splits)
  have "idOf s' = (idOf s)(allocated s := Some (ID body))"
    unfolding s' by (auto simp: idOf_def fun_eq_iff)
  with serialOn_request [OF i [unfolded serial_def] fresh r, of "Some (ID body)"]
  show ?thesis unfolding serial_def s' by simp
next
  case (HandlerStep a)
  with st have hs: "handlerStep a s = Some s'" by (auto simp: step_def split: if_splits)
  note i' = i [unfolded serial_def]
  show ?thesis
  proof (cases "handlerLine s a")
    case NoHandler
    with hs show ?thesis by (simp add: handlerStep_def split: option.splits)
  next
    case Returned
    with hs show ?thesis by (simp add: handlerStep_def split: option.splits)
  next
    case Line48
    have alone: "\<forall>b. \<not> critical (handlerLine s b)"
    proof
      fix b
      show "\<not> critical (handlerLine s b)"
      proof (cases "b < allocated s")
        case True
        with ex HandlerStep Line48 show ?thesis by (simp add: entersAlone_def)
      next
        case False
        with c have "handlerLine s b = NoHandler" unfolding consistent_def by simp
        then show ?thesis by (simp add: critical_def)
      qed
    qed
    have r: "a \<notin> set (tasks s)"
      using unappended_not_registered [OF c, of a] Line48 by simp
    from hs Line48 obtain task where "heap s a = Some task"
      and s': "s' = s\<lparr> heap := (heap s)(a \<mapsto> task\<lparr> ID := nextTaskID s \<rparr>),
               handlerLine := (handlerLine s)(a := Line49) \<rparr>"
      by (auto simp: handlerStep_def split: option.splits)
    have "idOf s' = (idOf s)(a := Some (nextTaskID s))"
      unfolding s' by (auto simp: idOf_def fun_eq_iff)
    with serialOn_48 [OF i' Line48 alone r]
    show ?thesis unfolding serial_def s' by simp
  next
    case Line49
    from hs Line49 have s': "s' = s\<lparr> nextTaskID := nextTaskID s + 1,
               handlerLine := (handlerLine s)(a := Line50) \<rparr>"
      by (auto simp: handlerStep_def split: option.splits)
    have "idOf s' = idOf s" unfolding s' by (auto simp: idOf_def fun_eq_iff)
    with serialOn_49 [OF i' Line49]
    show ?thesis unfolding serial_def s' by simp
  next
    case Line50
    from hs Line50 obtain task where t: "heap s a = Some task"
      and s': "s' = s\<lparr> heap := (heap s)(a \<mapsto> task\<lparr> Status := ''queued'' \<rparr>),
               handlerLine := (handlerLine s)(a := Line52) \<rparr>"
      by (auto simp: handlerStep_def split: option.splits)
    have "idOf s' = idOf s" unfolding s' using t by (auto simp: idOf_def fun_eq_iff)
    with serialOn_50 [OF i' Line50]
    show ?thesis unfolding serial_def s' by simp
  next
    case Line52
    from hs Line52 have s': "s' = s\<lparr> tasks := tasks s @ [a],
               handlerLine := (handlerLine s)(a := Line55) \<rparr>"
      by (auto simp: handlerStep_def split: option.splits)
    have "idOf s' = idOf s" unfolding s' by (auto simp: idOf_def fun_eq_iff)
    with serialOn_52 [OF i' Line52]
    show ?thesis unfolding serial_def s' by simp
  next
    case Line55
    from hs Line55 have s': "s' = s\<lparr> taskChannel := taskChannel s @ [a],
               handlerLine := (handlerLine s)(a := Line57) \<rparr>"
      by (auto simp: handlerStep_def split: option.splits if_splits)
    have "idOf s' = idOf s" unfolding s' by (auto simp: idOf_def fun_eq_iff)
    with serialOn_later [OF i', of a Line57] Line55
    show ?thesis unfolding serial_def s' by (simp add: critical_def)
  next
    case Line57
    from hs Line57 have s': "s' = s\<lparr> handlerLine := (handlerLine s)(a := Returned) \<rparr>"
      by (auto simp: handlerStep_def split: option.splits)
    have "idOf s' = idOf s" unfolding s' by (auto simp: idOf_def fun_eq_iff)
    with serialOn_later [OF i', of a Returned] Line57
    show ?thesis unfolding serial_def s' by (simp add: critical_def)
  qed
next
  case (AgentStep w)
  with st have as: "agentStep F w s = Some s'" by (auto simp: step_def split: if_splits)
  have "idOf s' = idOf s" "tasks s' = tasks s" "nextTaskID s' = nextTaskID s"
    "handlerLine s' = handlerLine s"
    using as
    by (auto simp: agentStep_def idOf_def fun_eq_iff
          split: option.splits agent_pc.splits list.splits outcome.splits)
  with i show ?thesis by (simp add: serial_def)
qed

lemma serial_run:
  "consistent s \<Longrightarrow> serial s \<Longrightarrow> run F es s = Some s' \<Longrightarrow> exclusive F es s \<Longrightarrow> serial s'"
proof (induction es arbitrary: s)
  case Nil
  then show ?case by simp
next
  case (Cons ev es)
  from Cons.prems(3) obtain s1 where s1: "step F ev s = Some s1" "run F es s1 = Some s'"
    by (auto split: option.splits)
  from Cons.prems(4) s1(1) have ex: "entersAlone ev s" "exclusive F es s1" by simp_all
  from Cons.prems(1) s1(1) have "consistent s1" by (rule consistent_step)
  moreover from Cons.prems(1,2) s1(1) ex(1) have "serial s1" by (rule serial_step)
  ultimately show ?case using s1(2) ex(2) by (rule Cons.IH)
qed

lemma assigned_ids:
  assumes c: "consistent s" and i: "serial s" and a: "assigned s a"
  shows "(critical (handlerLine s a) \<and> idOf s a = Some (int (length (tasks s)) + 1))
       \<or> (\<exists>k < length (tasks s). tasks s ! k = a \<and> idOf s a = Some (int k + 1))"
proof (cases "critical (handlerLine s a)")
  case True
  with i show ?thesis unfolding serial_def serialOn_def critical_def by blast
next
  case False
  with a have "handlerLine s a = Line55 \<or> handlerLine s a = Line57 \<or> handlerLine s a = Returned"
    unfolding assigned_def critical_def by (cases "handlerLine s a") auto
  with c have "a \<in> set (tasks s)" unfolding consistent_def by blast
  then obtain k where k: "k < length (tasks s)" "tasks s ! k = a"
    by (auto simp: in_set_conv_nth)
  with i have "idOf s a = Some (int k + 1)" unfolding serial_def serialOn_def by blast
  with k show ?thesis by blast
qed

lemma entersAlone_simps:
  "entersAlone (Request b) s" "entersAlone (AgentStep w) s"
  "entersAlone (HandlerStep a) s =
     (handlerLine s a = Line48 \<longrightarrow> (\<forall>b < allocated s. \<not> critical (handlerLine s b)))"
  by (simp_all add: entersAlone_def)

text \<open>
  C5 fails for simultaneous submissions: no lock protects \<^verbatim>\<open>nextTaskID\<close>. When two calls of
  \<^verbatim>\<open>addTaskHandler\<close> both execute line 48 before either executes line 49, both tasks get the
  identifier 1.
\<close>

theorem simultaneous_submissions_counterexample:
  "map_option listTasksHandler
     (run exact_ops
        [Request (submission ''1''), Request (submission ''2''),
         HandlerStep 0, HandlerStep 1, HandlerStep 0, HandlerStep 1,
         HandlerStep 0, HandlerStep 1, HandlerStep 0, HandlerStep 1] initial)
   = Some [Some \<lparr> ID = 1, Expression = runes ''1'', Status = ''queued'', Result = 0, AgentID = 0 \<rparr>,
           Some \<lparr> ID = 1, Expression = runes ''2'', Status = ''queued'', Result = 0, AgentID = 0 \<rparr>]"
  by (simp add: run_defs listTasksHandler_def)

text \<open>
  C5, amended. In every exclusive run (no call executes line 48 while another call is between
  its lines 48 and 52) the identifiers are unique: two different calls that have executed
  line 48 have different identifiers. And they increase strictly: a call that executes
  line 48 gets \<^verbatim>\<open>nextTaskID\<close>, which is greater than every identifier given before. The
  identifier of a call is the \<^verbatim>\<open>ID\<close> of its task, which line 57 sends back as \<^verbatim>\<open>task_id\<close>.
\<close>

theorem identifiers_unique_and_increasing:
  assumes "run F es initial = Some s" and "exclusive F es initial"
  shows "(\<forall>a b. assigned s a \<and> assigned s b \<and> a \<noteq> b \<longrightarrow> idOf s a \<noteq> idOf s b)
       \<and> (\<forall>a s'. handlerLine s a = Line48 \<and> entersAlone (HandlerStep a) s
              \<and> step F (HandlerStep a) s = Some s' \<longrightarrow>
            idOf s' a = Some (nextTaskID s)
            \<and> (\<forall>b i. assigned s b \<and> idOf s b = Some i \<longrightarrow> i < nextTaskID s))"
proof -
  from assms(1) have c: "consistent s" using reachable_invariants by blast
  from serial_run [OF consistent_initial serial_initial assms] have i: "serial s" .
  have 1: "idOf s a \<noteq> idOf s b" if "assigned s a" "assigned s b" "a \<noteq> b" for a b
  proof -
    from i have u: "critical (handlerLine s a) \<Longrightarrow> critical (handlerLine s b) \<Longrightarrow> a = b"
      unfolding serial_def serialOn_def by blast
    from assigned_ids [OF c i that(1)] assigned_ids [OF c i that(2)] that(3) u
    show ?thesis by auto
  qed
  have 2: "idOf s' a = Some (nextTaskID s)
            \<and> (\<forall>b i. assigned s b \<and> idOf s b = Some i \<longrightarrow> i < nextTaskID s)"
    if h: "handlerLine s a = Line48" "entersAlone (HandlerStep a) s"
      "step F (HandlerStep a) s = Some s'" for a s'
  proof -
    have alone: "\<not> critical (handlerLine s b)" for b
    proof (cases "b < allocated s")
      case True
      with h(1,2) show ?thesis by (simp add: entersAlone_def)
    next
      case False
      with c have "handlerLine s b = NoHandler" unfolding consistent_def by simp
      then show ?thesis by (simp add: critical_def)
    qed
    with i have n: "nextTaskID s = int (length (tasks s)) + 1"
      unfolding serial_def serialOn_def by blast
    from h(1,3) have "idOf s' a = Some (nextTaskID s)"
      by (auto simp: step_def handlerStep_def idOf_def split: if_splits option.splits)
    moreover have "i < nextTaskID s" if "assigned s b" "idOf s b = Some i" for b i
      using assigned_ids [OF c \<open>serial s\<close> that(1)] alone [of b] that(2) n by auto
    ultimately show ?thesis by blast
  qed
  from 1 2 show ?thesis by blast
qed


theorem identifiers_unique_and_increasing_witness:
  "\<exists>s s'. run exact_ops
       [Request (submission ''1''), HandlerStep 0, HandlerStep 0, Request (submission ''2''),
        HandlerStep 0, HandlerStep 0] initial = Some s
     \<and> exclusive exact_ops
       [Request (submission ''1''), HandlerStep 0, HandlerStep 0, Request (submission ''2''),
        HandlerStep 0, HandlerStep 0] initial
     \<and> handlerLine s 1 = Line48 \<and> entersAlone (HandlerStep 1) s
     \<and> step exact_ops (HandlerStep 1) s = Some s'
     \<and> assigned s 0 \<and> idOf s 0 = Some 1 \<and> nextTaskID s = 2
     \<and> idOf s' 1 = Some 2 \<and> 1 < nextTaskID s
     \<and> run exact_ops
       [Request (submission ''1''), HandlerStep 0, HandlerStep 0, Request (submission ''2''),
        HandlerStep 0, HandlerStep 0, HandlerStep 1] initial = Some s'
     \<and> assigned s' 0 \<and> assigned s' 1 \<and> idOf s' 0 \<noteq> idOf s' 1"
proof -
  let ?es = "[Request (submission ''1''), HandlerStep 0, HandlerStep 0, Request (submission ''2''),
        HandlerStep 0, HandlerStep 0]"
  define s where "s = the (run exact_ops ?es initial)"
  define s' where "s' = the (step exact_ops (HandlerStep 1) s)"
  have r: "run exact_ops ?es initial = Some s"
    unfolding s_def by (simp add: run_defs)
  have x: "exclusive exact_ops ?es initial"
    by (simp add: run_defs entersAlone_simps critical_def less_Suc_eq)
  have h: "handlerLine s 1 = Line48" "entersAlone (HandlerStep 1) s" "assigned s 0"
    "idOf s 0 = Some 1" "nextTaskID s = 2"
    unfolding s_def
    by (simp_all add: run_defs entersAlone_simps critical_def less_Suc_eq assigned_def idOf_def)
  have st: "step exact_ops (HandlerStep 1) s = Some s'"
    unfolding s'_def s_def by (simp add: run_defs)
  have r': "run exact_ops (?es @ [HandlerStep 1]) initial = Some s'"
    unfolding s'_def s_def by (simp add: run_defs)
  have x': "exclusive exact_ops (?es @ [HandlerStep 1]) initial"
    by (simp add: run_defs entersAlone_simps critical_def less_Suc_eq)
  have a': "assigned s' 0" "assigned s' 1"
    unfolding s'_def s_def by (simp_all add: run_defs assigned_def)
  from identifiers_unique_and_increasing [OF r x] h st
  have 1: "idOf s' 1 = Some 2" "1 < nextTaskID s" by auto
  from identifiers_unique_and_increasing [OF r' x'] a'
  have 2: "idOf s' 0 \<noteq> idOf s' 1" by auto
  from r x h st 1 r' a' 2 show ?thesis by auto
qed

text \<open>
  C9 fails when submissions overlap: a call that reads \<^verbatim>\<open>nextTaskID\<close> first may append to
  \<^verbatim>\<open>tasks\<close> last. Then position 0 holds the task with identifier 2, and the lookup of
  identifier 1 returns it.
\<close>

theorem position_invariant_counterexample:
  "map_option listTasksHandler
     (run exact_ops
        [Request (submission ''1''), Request (submission ''2''),
         HandlerStep 0, HandlerStep 0, HandlerStep 1, HandlerStep 1, HandlerStep 1, HandlerStep 1,
         HandlerStep 0, HandlerStep 0] initial)
   = Some [Some \<lparr> ID = 2, Expression = runes ''2'', Status = ''queued'', Result = 0, AgentID = 0 \<rparr>,
           Some \<lparr> ID = 1, Expression = runes ''1'', Status = ''queued'', Result = 0, AgentID = 0 \<rparr>]"
  by (simp add: run_defs listTasksHandler_def)

text \<open>
  C9, amended. In every exclusive run the task with identifier \<open>i\<close> is at position \<open>i - 1\<close> of
  \<^verbatim>\<open>tasks\<close>: the lookup of lines 68 to 74 returns the task whose \<^verbatim>\<open>ID\<close> is the requested
  identifier exactly when \<open>1 \<le> i \<le> len(tasks)\<close>, and nothing otherwise.
\<close>

theorem identifiers_match_positions:
  assumes "run F es initial = Some s" and "exclusive F es initial"
  shows "(\<forall>i. 1 \<le> i \<and> i \<le> int (length (tasks s)) \<longrightarrow>
            lookupTask s i = Some (tasks s ! nat (i - 1)) \<and> idOf s (tasks s ! nat (i - 1)) = Some i)
       \<and> (\<forall>i. \<not> (1 \<le> i \<and> i \<le> int (length (tasks s))) \<longrightarrow> lookupTask s i = None)
       \<and> (\<forall>a \<in> set (tasks s). \<forall>i. idOf s a = Some i \<longrightarrow>
            1 \<le> i \<and> i \<le> int (length (tasks s)) \<and> tasks s ! nat (i - 1) = a)"
proof -
  from assms(1) have c: "consistent s" using reachable_invariants by blast
  from serial_run [OF consistent_initial serial_initial assms]
  have pos: "\<And>k. k < length (tasks s) \<Longrightarrow> idOf s (tasks s ! k) = Some (int k + 1)"
    unfolding serial_def serialOn_def by blast
  have 1: "lookupTask s i = Some (tasks s ! nat (i - 1)) \<and> idOf s (tasks s ! nat (i - 1)) = Some i"
    if "1 \<le> i \<and> i \<le> int (length (tasks s))" for i
  proof -
    from that have "nat (i - 1) < length (tasks s)" by linarith
    from pos [OF this] that show ?thesis by (auto simp: lookupTask_def)
  qed
  have 2: "lookupTask s i = None" if "\<not> (1 \<le> i \<and> i \<le> int (length (tasks s)))" for i
    using that by (auto simp: lookupTask_def)
  have 3: "1 \<le> i \<and> i \<le> int (length (tasks s)) \<and> tasks s ! nat (i - 1) = a"
    if "a \<in> set (tasks s)" "idOf s a = Some i" for a i
  proof -
    from that(1) obtain k where k: "k < length (tasks s)" "tasks s ! k = a"
      by (auto simp: in_set_conv_nth)
    from pos [OF k(1)] k(2) that(2) have "i = int k + 1" by simp
    with k show ?thesis by simp
  qed
  from 1 2 3 show ?thesis by blast
qed


theorem identifiers_match_positions_witness:
  "\<exists>s. run exact_ops
       [Request (submission ''1''), HandlerStep 0, HandlerStep 0, Request (submission ''2''),
        HandlerStep 0, HandlerStep 0, HandlerStep 1, HandlerStep 1, HandlerStep 1, HandlerStep 1]
       initial = Some s
     \<and> exclusive exact_ops
       [Request (submission ''1''), HandlerStep 0, HandlerStep 0, Request (submission ''2''),
        HandlerStep 0, HandlerStep 0, HandlerStep 1, HandlerStep 1, HandlerStep 1, HandlerStep 1]
       initial
     \<and> tasks s = [0, 1]
     \<and> lookupTask s 1 = Some 0 \<and> idOf s 0 = Some 1
     \<and> lookupTask s 2 = Some 1 \<and> idOf s 1 = Some 2
     \<and> lookupTask s 3 = None \<and> lookupTask s 0 = None"
proof -
  let ?es = "[Request (submission ''1''), HandlerStep 0, HandlerStep 0, Request (submission ''2''),
        HandlerStep 0, HandlerStep 0, HandlerStep 1, HandlerStep 1, HandlerStep 1, HandlerStep 1]"
  define s where "s = the (run exact_ops ?es initial)"
  have r: "run exact_ops ?es initial = Some s"
    unfolding s_def by (simp add: run_defs)
  have x: "exclusive exact_ops ?es initial"
    by (simp add: run_defs entersAlone_simps critical_def less_Suc_eq)
  have t: "tasks s = [0, 1]"
    unfolding s_def by (simp add: run_defs)
  note inst = identifiers_match_positions [OF r x]
  from inst have p: "\<And>i. 1 \<le> i \<and> i \<le> int (length (tasks s)) \<Longrightarrow>
      lookupTask s i = Some (tasks s ! nat (i - 1)) \<and> idOf s (tasks s ! nat (i - 1)) = Some i"
    and n: "\<And>i. \<not> (1 \<le> i \<and> i \<le> int (length (tasks s))) \<Longrightarrow> lookupTask s i = None"
    by blast+
  from p [of 1] p [of 2] n [of 3] n [of 0] t
  have "lookupTask s 1 = Some 0 \<and> idOf s 0 = Some 1"
    "lookupTask s 2 = Some 1 \<and> idOf s 1 = Some 2"
    "lookupTask s 3 = None" "lookupTask s 0 = None"
    by simp_all
  with r x t show ?thesis by blast
qed

section \<open>Polling for the result\<close>

text \<open>
  In every run the handler answers by position: for an integer between 1 and the length of
  \<^verbatim>\<open>tasks\<close> it reads the task at that position, and what it sends for a \<^verbatim>\<open>completed\<close>
  task is the number \<^verbatim>\<open>evaluateExpression\<close> returned for the expression of that task.
\<close>

lemma polling_by_position:
  assumes "run F es initial = Some s"
    and "Atoi (firstSegment (TrimPrefix path ''/tasks/'')) = Some taskID"
    and "1 \<le> taskID" and "taskID \<le> int (length (tasks s))"
  shows "\<exists>task. heap s (tasks s ! nat (taskID - 1)) = Some task
          \<and> (Status task \<noteq> ''completed'' \<longrightarrow>
               getTaskResultHandler F path s =
                 Some (Written 202 (Some (StatusBody ''Task is not completed yet''))))
          \<and> (Status task = ''completed'' \<longrightarrow>
               getTaskResultHandler F path s = Some (Written 200 (Encode F (ResultBody (Result task))))
               \<and> evaluateExpression F (Expression task) = Some (Returns (Result task)))"
proof -
  from assms(1) have c: "consistent s" and r: "results_recorded F s"
    using reachable_invariants by blast+
  let ?a = "tasks s ! nat (taskID - 1)"
  from assms(3,4) have "nat (taskID - 1) < length (tasks s)" by linarith
  then have m: "?a \<in> set (tasks s)" by (rule nth_mem)
  with c have hl: "handlerLine s ?a = Line55 \<or> handlerLine s ?a = Line57 \<or> handlerLine s ?a = Returned"
    unfolding consistent_def by blast
  with c obtain task where t: "heap s ?a = Some task"
    unfolding consistent_def by fastforce
  have "evaluated F task" if "Status task = ''completed''"
    using hl t that results_recordedD(3-5) [OF r, of ?a task] by blast
  with t assms(2-4) show ?thesis
    by (auto simp: getTaskResultHandler_def lookupTask_def evaluated_def Encode_def)
qed

lemma polling_invalid:
  "Atoi (firstSegment (TrimPrefix path ''/tasks/'')) = None \<Longrightarrow>
     getTaskResultHandler F path s = Some (HttpError ''Invalid task ID'' 400)"
  by (simp add: getTaskResultHandler_def)

lemma polling_out_of_range:
  "Atoi (firstSegment (TrimPrefix path ''/tasks/'')) = Some taskID \<Longrightarrow>
   taskID < 1 \<or> int (length (tasks s)) < taskID \<Longrightarrow>
     getTaskResultHandler F path s = Some (HttpError ''Task not found'' 404)"
  by (auto simp add: getTaskResultHandler_def lookupTask_def)

lemma exclusive_positions:
  assumes "run F es initial = Some s" and "exclusive F es initial" and "k < length (tasks s)"
  shows "idOf s (tasks s ! k) = Some (int k + 1)"
  using serial_run [OF consistent_initial serial_initial assms(1,2)] assms(3)
  unfolding serial_def serialOn_def by blast

text \<open>
  C4 fails when submissions overlap: the handler looks the task up by position, and no lock
  keeps the identifiers in step with the positions. Here the call that got identifier 1 appends
  second; the task with identifier 2 is at position 0 and is completed. The task with
  identifier 1 is still \<^verbatim>\<open>queued\<close>, and the request for \<^verbatim>\<open>/tasks/1/result\<close> is answered with
  200 and the result of the task with identifier 2.
\<close>

theorem polling_by_identifier_counterexample:
  "map_option listTasksHandler
     (run exact_ops
        [Request (submission ''1''), Request (submission ''2''),
         HandlerStep 0, HandlerStep 0, HandlerStep 1, HandlerStep 1, HandlerStep 1, HandlerStep 1,
         HandlerStep 1, AgentStep 1, AgentStep 1, AgentStep 1, AgentStep 1,
         HandlerStep 0, HandlerStep 0] initial)
   = Some [Some \<lparr> ID = 2, Expression = runes ''2'', Status = ''completed'', Result = 2, AgentID = 0 \<rparr>,
           Some \<lparr> ID = 1, Expression = runes ''1'', Status = ''queued'', Result = 0, AgentID = 0 \<rparr>]
   \<and> map_option (getTaskResultHandler exact_ops ''/tasks/1/result'')
     (run exact_ops
        [Request (submission ''1''), Request (submission ''2''),
         HandlerStep 0, HandlerStep 0, HandlerStep 1, HandlerStep 1, HandlerStep 1, HandlerStep 1,
         HandlerStep 1, AgentStep 1, AgentStep 1, AgentStep 1, AgentStep 1,
         HandlerStep 0, HandlerStep 0] initial)
   = Some (Some (Written 200 (Some (ResultBody 2))))"
proof -
  have e: "evaluateExpression exact_ops (runes ''2'') = Some (Returns 2)"
    using evaluate_rendered [of "Product (Factor (Digit 2))" "runes ''2''" exact_ops]
    by (simp add: runes_def removeSpaces_def exact_ops_def)
  have a: "Atoi (firstSegment (TrimPrefix ''/tasks/1/result'' ''/tasks/'')) = Some 1"
    by (simp add: Atoi_def firstSegment_def TrimPrefix_def isDigit_def decimal_def)
  have f: "f64_finite exact_ops x" for x by (simp add: exact_ops_def)
  show ?thesis
    by (simp add: run_defs listTasksHandler_def e a f getTaskResultHandler_def lookupTask_def
          Encode_def)
qed

text \<open>
  C4, amended. In every exclusive run (no call of \<^verbatim>\<open>addTaskHandler\<close> executes line 48 while
  another call is between its lines 48 and 52), for every request path: when the first
  segment after \<^verbatim>\<open>/tasks/\<close> is not an integer the response is 400; when no task of \<^verbatim>\<open>tasks\<close>
  has that identifier it is 404; when a task of \<^verbatim>\<open>tasks\<close> has that identifier and its status
  is not \<^verbatim>\<open>completed\<close>, the response is 202 with the body \<^verbatim>\<open>Task is not completed yet\<close> and
  no result; when its status is \<^verbatim>\<open>completed\<close>, its \<^verbatim>\<open>Result\<close> is the number
  \<^verbatim>\<open>evaluateExpression\<close> returned for its expression, and when that number is finite the
  response is 200 with the body that carries it.
\<close>

theorem result_polling:
  assumes "run F es initial = Some s" and "exclusive F es initial"
  shows "(Atoi (firstSegment (TrimPrefix path ''/tasks/'')) = None \<longrightarrow>
            getTaskResultHandler F path s = Some (HttpError ''Invalid task ID'' 400))
       \<and> (\<forall>taskID. Atoi (firstSegment (TrimPrefix path ''/tasks/'')) = Some taskID \<longrightarrow>
            ((\<forall>a \<in> set (tasks s). idOf s a \<noteq> Some taskID) \<longrightarrow>
               getTaskResultHandler F path s = Some (HttpError ''Task not found'' 404))
          \<and> (\<forall>a \<in> set (tasks s). idOf s a = Some taskID \<longrightarrow>
               (\<exists>task. heap s a = Some task
                  \<and> (Status task \<noteq> ''completed'' \<longrightarrow>
                       getTaskResultHandler F path s =
                         Some (Written 202 (Some (StatusBody ''Task is not completed yet''))))
                  \<and> (Status task = ''completed'' \<longrightarrow>
                       evaluateExpression F (Expression task) = Some (Returns (Result task))
                       \<and> (f64_finite F (Result task) \<longrightarrow>
                            getTaskResultHandler F path s =
                              Some (Written 200 (Some (ResultBody (Result task)))))))))"
proof -
  note pos = exclusive_positions [OF assms]
  have nf: "getTaskResultHandler F path s = Some (HttpError ''Task not found'' 404)"
    if a: "Atoi (firstSegment (TrimPrefix path ''/tasks/'')) = Some taskID"
      and n: "\<forall>a \<in> set (tasks s). idOf s a \<noteq> Some taskID" for taskID
  proof -
    have "taskID < 1 \<or> int (length (tasks s)) < taskID"
    proof (rule ccontr)
      assume "\<not> ?thesis"
      then have k: "nat (taskID - 1) < length (tasks s)" and i: "int (nat (taskID - 1)) + 1 = taskID"
        by linarith+
      from pos [OF k] i have "idOf s (tasks s ! nat (taskID - 1)) = Some taskID" by simp
      with n nth_mem [OF k] show False by blast
    qed
    with a show ?thesis by (rule polling_out_of_range)
  qed
  have found: "\<exists>task. heap s a = Some task
                  \<and> (Status task \<noteq> ''completed'' \<longrightarrow>
                       getTaskResultHandler F path s =
                         Some (Written 202 (Some (StatusBody ''Task is not completed yet''))))
                  \<and> (Status task = ''completed'' \<longrightarrow>
                       evaluateExpression F (Expression task) = Some (Returns (Result task))
                       \<and> (f64_finite F (Result task) \<longrightarrow>
                            getTaskResultHandler F path s =
                              Some (Written 200 (Some (ResultBody (Result task))))))"
    if a: "Atoi (firstSegment (TrimPrefix path ''/tasks/'')) = Some taskID"
      and m: "a \<in> set (tasks s)" and i: "idOf s a = Some taskID" for taskID a
  proof -
    from m obtain k where k: "k < length (tasks s)" "tasks s ! k = a"
      by (auto simp: in_set_conv_nth)
    from pos [OF k(1)] k(2) i have t: "taskID = int k + 1" by simp
    with k have b: "1 \<le> taskID" "taskID \<le> int (length (tasks s))" "tasks s ! nat (taskID - 1) = a"
      by simp_all
    from polling_by_position [OF assms(1) a b(1,2), of ] b(3)
    show ?thesis by (auto simp: Encode_def)
  qed
  from nf found polling_invalid [of path F s] show ?thesis by blast
qed

theorem result_polling_witness:
  "\<exists>s. run exact_ops
       [Request (submission ''2+3''), HandlerStep 0, HandlerStep 0, HandlerStep 0, HandlerStep 0,
        HandlerStep 0, AgentStep 1, AgentStep 1, AgentStep 1, AgentStep 1,
        Request (submission ''4''), HandlerStep 1, HandlerStep 1, HandlerStep 1, HandlerStep 1]
       initial = Some s
     \<and> exclusive exact_ops
       [Request (submission ''2+3''), HandlerStep 0, HandlerStep 0, HandlerStep 0, HandlerStep 0,
        HandlerStep 0, AgentStep 1, AgentStep 1, AgentStep 1, AgentStep 1,
        Request (submission ''4''), HandlerStep 1, HandlerStep 1, HandlerStep 1, HandlerStep 1]
       initial
     \<and> getTaskResultHandler exact_ops ''/tasks/1/result'' s
         = Some (Written 200 (Some (ResultBody 5)))
     \<and> getTaskResultHandler exact_ops ''/tasks/2/result'' s
         = Some (Written 202 (Some (StatusBody ''Task is not completed yet'')))
     \<and> getTaskResultHandler exact_ops ''/tasks/3/result'' s
         = Some (HttpError ''Task not found'' 404)
     \<and> getTaskResultHandler exact_ops ''/tasks/0/result'' s
         = Some (HttpError ''Task not found'' 404)
     \<and> getTaskResultHandler exact_ops ''/tasks/x1/result'' s
         = Some (HttpError ''Invalid task ID'' 400)"
proof -
  let ?es = "[Request (submission ''2+3''), HandlerStep 0, HandlerStep 0, HandlerStep 0,
        HandlerStep 0, HandlerStep 0, AgentStep 1, AgentStep 1, AgentStep 1, AgentStep 1,
        Request (submission ''4''), HandlerStep 1, HandlerStep 1, HandlerStep 1, HandlerStep 1]"
  define s where "s = the (run exact_ops ?es initial)"
  have r: "run exact_ops ?es initial = Some s"
    unfolding s_def by (simp add: run_defs evaluate_2_plus_3)
  have x: "exclusive exact_ops ?es initial"
    by (simp add: run_defs evaluate_2_plus_3 entersAlone_simps critical_def less_Suc_eq)
  have t: "tasks s = [0, 1]"
    "heap s 0 = Some \<lparr> ID = 1, Expression = runes ''2+3'', Status = ''completed'', Result = 5,
       AgentID = 0 \<rparr>"
    "heap s 1 = Some \<lparr> ID = 2, Expression = runes ''4'', Status = ''queued'', Result = 0,
       AgentID = 0 \<rparr>"
    unfolding s_def by (simp_all add: run_defs evaluate_2_plus_3)
  have a: "Atoi (firstSegment (TrimPrefix ''/tasks/1/result'' ''/tasks/'')) = Some 1"
    "Atoi (firstSegment (TrimPrefix ''/tasks/2/result'' ''/tasks/'')) = Some 2"
    "Atoi (firstSegment (TrimPrefix ''/tasks/3/result'' ''/tasks/'')) = Some 3"
    "Atoi (firstSegment (TrimPrefix ''/tasks/0/result'' ''/tasks/'')) = Some 0"
    "Atoi (firstSegment (TrimPrefix ''/tasks/x1/result'' ''/tasks/'')) = None"
    by (simp_all add: Atoi_def firstSegment_def TrimPrefix_def isDigit_def decimal_def)
  have f: "f64_finite exact_ops 5" by (simp add: exact_ops_def)
  from result_polling [OF r x, of "''/tasks/1/result''"] a(1) t f
  have 1: "getTaskResultHandler exact_ops ''/tasks/1/result'' s
         = Some (Written 200 (Some (ResultBody 5)))"
    by (simp add: idOf_def)
  from result_polling [OF r x, of "''/tasks/2/result''"] a(2) t
  have 2: "getTaskResultHandler exact_ops ''/tasks/2/result'' s
         = Some (Written 202 (Some (StatusBody ''Task is not completed yet'')))"
    by (simp add: idOf_def)
  from result_polling [OF r x, of "''/tasks/3/result''"] a(3) t
  have 3: "getTaskResultHandler exact_ops ''/tasks/3/result'' s
         = Some (HttpError ''Task not found'' 404)"
    by (simp add: idOf_def)
  from result_polling [OF r x, of "''/tasks/0/result''"] a(4) t
  have 4: "getTaskResultHandler exact_ops ''/tasks/0/result'' s
         = Some (HttpError ''Task not found'' 404)"
    by (simp add: idOf_def)
  from result_polling [OF r x, of "''/tasks/x1/result''"] a(5)
  have 5: "getTaskResultHandler exact_ops ''/tasks/x1/result'' s
         = Some (HttpError ''Invalid task ID'' 400)"
    by simp
  from r x 1 2 3 4 5 show ?thesis by blast
qed

text \<open>
  A result that is not finite is left out of the statement above. The quotient \<^verbatim>\<open>1/0\<close> is
  \<open>+Inf\<close> in \<^verbatim>\<open>float64\<close>; the agent stores it and completes the task, the encoder refuses it,
  and the client gets 200 with an empty body.
\<close>

lemma evaluate_1_over_0:
  "evaluateExpression F (runes ''1/0'') = Some (Returns (f64_quo F (f64_digit F 1) (f64_digit F 0)))"
  using evaluate_rendered [of "Product (Over (Factor (Digit 1)) (Digit 0))" "runes ''1/0''" F]
  by (simp add: runes_def removeSpaces_def)

lemma non_finite_result_has_no_body:
  assumes "Expression body = runes ''1/0''"
    and "\<not> f64_finite F (f64_quo F (f64_digit F 1) (f64_digit F 0))"
  shows "map_option (getTaskResultHandler F ''/tasks/1/result'')
           (run F [Request body, HandlerStep 0, HandlerStep 0, HandlerStep 0, HandlerStep 0,
                   HandlerStep 0, AgentStep 1, AgentStep 1, AgentStep 1, AgentStep 1] initial)
         = Some (Some (Written 200 None))"
proof -
  have a: "Atoi (firstSegment (TrimPrefix ''/tasks/1/result'' ''/tasks/'')) = Some 1"
    by (simp add: Atoi_def firstSegment_def TrimPrefix_def isDigit_def decimal_def)
  from assms show ?thesis
    by (simp add: run_defs evaluate_1_over_0 a getTaskResultHandler_def lookupTask_def Encode_def)
qed

section \<open>Malformed expressions\<close>

text \<open>
  C1 fails: \<^verbatim>\<open>evaluateExpression\<close> returns a \<^verbatim>\<open>float64\<close> and nothing else, and no line of the
  code writes a status for a failure. On \<^verbatim>\<open>23\<close> two operands remain when the operators are
  drained; the call returns the bottom one, 2, and the agent records \<^verbatim>\<open>completed\<close> with it.
\<close>

theorem leftover_operands_counterexample:
  "scanRunes exact_ops (runes ''23'') \<lparr> operandStack = [], operatorStack = [] \<rparr>
     = Some \<lparr> operandStack = [2, 3], operatorStack = [] \<rparr>
   \<and> evaluateExpression exact_ops (runes ''23'') = Some (Returns 2)
   \<and> map_option listTasksHandler
       (run exact_ops
          [Request (submission ''23''), HandlerStep 0, HandlerStep 0, HandlerStep 0, HandlerStep 0,
           HandlerStep 0, HandlerStep 0, AgentStep 1, AgentStep 1, AgentStep 1, AgentStep 1] initial)
     = Some [Some \<lparr> ID = 1, Expression = runes ''23'', Status = ''completed'', Result = 2,
                   AgentID = 0 \<rparr>]"
proof -
  have 1: "scanRunes exact_ops (runes ''23'') \<lparr> operandStack = [], operatorStack = [] \<rparr>
     = Some \<lparr> operandStack = [2, 3], operatorStack = [] \<rparr>"
    by (simp add: runes_def scanRune_def parseFloat_def exact_ops_def)
  have 3: "map_option listTasksHandler
       (run exact_ops
          [Request (submission ''23''), HandlerStep 0, HandlerStep 0, HandlerStep 0, HandlerStep 0,
           HandlerStep 0, HandlerStep 0, AgentStep 1, AgentStep 1, AgentStep 1, AgentStep 1] initial)
     = Some [Some \<lparr> ID = 1, Expression = runes ''23'', Status = ''completed'', Result = 2,
                   AgentID = 0 \<rparr>]"
    by (simp add: run_defs listTasksHandler_def evaluate_23)
  from 1 evaluate_23 3 show ?thesis by simp
qed

text \<open>
  C1, amended. \<^verbatim>\<open>evaluateExpression\<close> has no error result and a task no status for a failure.
  \<^verbatim>\<open>performOperation\<close> returns without a pop when fewer than two operands or no operator are
  on the stacks. When the scan ends with no operator left and one or more operands,
  \<^verbatim>\<open>evaluateExpression\<close> returns the bottom operand, also when more than one remains. When
  the call returns a number the agent stores it as \<^verbatim>\<open>Result\<close> (line 103) and then sets the
  status \<^verbatim>\<open>completed\<close> (line 106), and every \<^verbatim>\<open>completed\<close> task in \<^verbatim>\<open>tasks\<close> carries the
  number the call returned for its expression. A single numeral alone returns itself.
\<close>

theorem evaluation_without_error_result:
  "(length (operandStack st) < 2 \<or> operatorStack st = [] \<longrightarrow> performOperation F st = st)
   \<and> (scanRunes F (removeSpaces text) \<lparr> operandStack = [], operatorStack = [] \<rparr> = Some st
        \<and> operatorStack st = [] \<and> operandStack st = v # rest
      \<longrightarrow> evaluateExpression F text = Some (Returns v))
   \<and> (48 \<le> char \<and> char \<le> 57
      \<longrightarrow> evaluateExpression F [char] = Some (Returns (f64_digit F (char - 48))))
   \<and> (run F es initial = Some s \<and> \<not> panicked s \<and> agentLine s w = Some (Line103 a)
        \<and> heap s a = Some task \<and> evaluateExpression F (Expression task) = Some (Returns r)
      \<longrightarrow> step F (AgentStep w) s
            = Some (s\<lparr> heap := (heap s)(a \<mapsto> task\<lparr> Result := r \<rparr>),
                       agentLine := (agentLine s)(w \<mapsto> Line106 a) \<rparr>))
   \<and> (run F es initial = Some s \<and> \<not> panicked s \<and> agentLine s w = Some (Line106 a)
        \<and> heap s a = Some task
      \<longrightarrow> step F (AgentStep w) s
            = Some (s\<lparr> heap := (heap s)(a \<mapsto> task\<lparr> Status := ''completed'' \<rparr>),
                       agentLine := (agentLine s)(w \<mapsto> Line99) \<rparr>)
          \<and> evaluateExpression F (Expression task) = Some (Returns (Result task)))
   \<and> (run F es initial = Some s \<and> a \<in> set (tasks s) \<and> heap s a = Some task
        \<and> Status task = ''completed''
      \<longrightarrow> evaluateExpression F (Expression task) = Some (Returns (Result task)))"
proof (intro conjI impI)
  assume "length (operandStack st) < 2 \<or> operatorStack st = []"
  then show "performOperation F st = st" by (auto simp: performOperation_def)
next
  assume h: "scanRunes F (removeSpaces text) \<lparr> operandStack = [], operatorStack = [] \<rparr> = Some st
        \<and> operatorStack st = [] \<and> operandStack st = v # rest"
  then have "reduceWhile F anything st = Some st" by (simp add: reduceWhile_stop)
  with h show "evaluateExpression F text = Some (Returns v)"
    by (simp add: evaluateExpression_def)
next
  assume "48 \<le> char \<and> char \<le> 57"
  then show "evaluateExpression F [char] = Some (Returns (f64_digit F (char - 48)))"
    by (simp add: evaluateExpression_def removeSpaces_def scanRune_def parseFloat_def
        reduceWhile_stop)
next
  assume "run F es initial = Some s \<and> \<not> panicked s \<and> agentLine s w = Some (Line103 a)
        \<and> heap s a = Some task \<and> evaluateExpression F (Expression task) = Some (Returns r)"
  then show "step F (AgentStep w) s
            = Some (s\<lparr> heap := (heap s)(a \<mapsto> task\<lparr> Result := r \<rparr>),
                       agentLine := (agentLine s)(w \<mapsto> Line106 a) \<rparr>)"
    by (simp add: step_def agentStep_def)
next
  assume h: "run F es initial = Some s \<and> \<not> panicked s \<and> agentLine s w = Some (Line106 a)
        \<and> heap s a = Some task"
  then show "step F (AgentStep w) s
            = Some (s\<lparr> heap := (heap s)(a \<mapsto> task\<lparr> Status := ''completed'' \<rparr>),
                       agentLine := (agentLine s)(w \<mapsto> Line99) \<rparr>)"
    by (simp add: step_def agentStep_def)
  from h have "results_recorded F s" using reachable_invariants by blast
  from results_recordedD(1) [OF this, of w a task] h
  show "evaluateExpression F (Expression task) = Some (Returns (Result task))"
    by (simp add: evaluated_def)
next
  assume h: "run F es initial = Some s \<and> a \<in> set (tasks s) \<and> heap s a = Some task
        \<and> Status task = ''completed''"
  then have c: "consistent s" and r: "results_recorded F s" using reachable_invariants by blast+
  from c h have "handlerLine s a = Line55 \<or> handlerLine s a = Line57 \<or> handlerLine s a = Returned"
    unfolding consistent_def by blast
  with h results_recordedD(3-5) [OF r, of a task]
  show "evaluateExpression F (Expression task) = Some (Returns (Result task))"
    by (auto simp: evaluated_def)
qed


theorem evaluation_without_error_result_witness:
  "\<exists>s1 s2 s3. performOperation exact_ops \<lparr> operandStack = [2], operatorStack = [43] \<rparr>
       = \<lparr> operandStack = [2], operatorStack = [43] \<rparr>
     \<and> scanRunes exact_ops (removeSpaces (runes ''2 3''))
         \<lparr> operandStack = [], operatorStack = [] \<rparr>
       = Some \<lparr> operandStack = [2, 3], operatorStack = [] \<rparr>
     \<and> evaluateExpression exact_ops (runes ''2 3'') = Some (Returns 2)
     \<and> evaluateExpression exact_ops (runes ''7'') = Some (Returns 7)
     \<and> run exact_ops
         [Request (submission ''2+3''), HandlerStep 0, HandlerStep 0, HandlerStep 0,
          HandlerStep 0, HandlerStep 0, AgentStep 1, AgentStep 1] initial = Some s1
     \<and> agentLine s1 1 = Some (Line103 0)
     \<and> step exact_ops (AgentStep 1) s1 = Some s2
     \<and> agentLine s2 1 = Some (Line106 0)
     \<and> map_option Result (heap s2 0) = Some 5
     \<and> step exact_ops (AgentStep 1) s2 = Some s3
     \<and> listTasksHandler s3
       = [Some \<lparr> ID = 1, Expression = runes ''2+3'', Status = ''completed'', Result = 5,
                 AgentID = 0 \<rparr>]
     \<and> evaluateExpression exact_ops (runes ''2+3'') = Some (Returns 5)"
proof -
  let ?es = "[Request (submission ''2+3''), HandlerStep 0, HandlerStep 0, HandlerStep 0,
          HandlerStep 0, HandlerStep 0, AgentStep 1, AgentStep 1]"
  let ?t = "\<lparr> ID = 1, Expression = runes ''2+3'', Status = ''calculated'', Result = 0,
                 AgentID = 0 :: int \<rparr>"
  define s1 where "s1 = the (run exact_ops ?es initial)"
  define s2 where "s2 = the (step exact_ops (AgentStep 1) s1)"
  define s3 where "s3 = the (step exact_ops (AgentStep 1) s2)"
  have r1: "run exact_ops ?es initial = Some s1"
    unfolding s1_def by (simp add: run_defs)
  have r2: "run exact_ops (?es @ [AgentStep 1]) initial = Some s2"
    unfolding s2_def s1_def by (simp add: run_defs evaluate_2_plus_3)
  have r3: "run exact_ops (?es @ [AgentStep 1, AgentStep 1]) initial = Some s3"
    unfolding s3_def s2_def s1_def by (simp add: run_defs evaluate_2_plus_3)
  have h1: "\<not> panicked s1" "agentLine s1 1 = Some (Line103 0)" "heap s1 0 = Some ?t"
    unfolding s1_def by (simp_all add: run_defs)
  have h2: "\<not> panicked s2" "agentLine s2 1 = Some (Line106 0)"
    "heap s2 0 = Some (?t\<lparr> Result := 5 \<rparr>)"
    unfolding s2_def s1_def by (simp_all add: run_defs evaluate_2_plus_3)
  have h3: "tasks s3 = [0]" "heap s3 0 = Some (?t\<lparr> Result := 5, Status := ''completed'' \<rparr>)"
    unfolding s3_def s2_def s1_def by (simp_all add: run_defs evaluate_2_plus_3)
  have sc: "scanRunes exact_ops (removeSpaces (runes ''2 3''))
         \<lparr> operandStack = [], operatorStack = [] \<rparr>
       = Some \<lparr> operandStack = [2, 3], operatorStack = [] \<rparr>"
    by (simp add: runes_def removeSpaces_def scanRune_def parseFloat_def exact_ops_def)
  note inst1 = evaluation_without_error_result
      [of "\<lparr> operandStack = [2], operatorStack = [43] \<rparr>" exact_ops "runes ''2 3''" 2 "[3]" 55
          "?es" s1 1 0 ?t 5]
  note inst2 = evaluation_without_error_result
      [of "\<lparr> operandStack = [2, 3], operatorStack = [] \<rparr>" exact_ops "runes ''2 3''" 2 "[3]" 55
          "?es @ [AgentStep 1]" s2 1 0 "?t\<lparr> Result := 5 \<rparr>" 5]
  note inst3 = evaluation_without_error_result
      [of "\<lparr> operandStack = [2, 3], operatorStack = [] \<rparr>" exact_ops "runes ''2 3''" 2 "[3]" 55
          "?es @ [AgentStep 1, AgentStep 1]" s3 1 0
          "?t\<lparr> Result := 5, Status := ''completed'' \<rparr>" 5]
  from inst1 have a: "performOperation exact_ops \<lparr> operandStack = [2], operatorStack = [43] \<rparr>
       = \<lparr> operandStack = [2], operatorStack = [43] \<rparr>" by simp
  from inst2 sc have b: "evaluateExpression exact_ops (runes ''2 3'') = Some (Returns 2)" by simp
  from inst1 have c: "evaluateExpression exact_ops (runes ''7'') = Some (Returns 7)"
    by (simp add: runes_def exact_ops_def)
  from inst1 r1 h1 evaluate_2_plus_3
  have d: "step exact_ops (AgentStep 1) s1
      = Some (s1\<lparr> heap := (heap s1)(0 \<mapsto> ?t\<lparr> Result := 5 \<rparr>),
                  agentLine := (agentLine s1)(1 \<mapsto> Line106 0) \<rparr>)" by simp
  then have d': "step exact_ops (AgentStep 1) s1 = Some s2" by (simp add: s2_def)
  from inst2 r2 h2
  have e: "step exact_ops (AgentStep 1) s2
      = Some (s2\<lparr> heap := (heap s2)(0 \<mapsto> ?t\<lparr> Result := 5, Status := ''completed'' \<rparr>),
                  agentLine := (agentLine s2)(1 \<mapsto> Line99) \<rparr>)" by simp
  then have e': "step exact_ops (AgentStep 1) s2 = Some s3" by (simp add: s3_def)
  from inst3 r3 h3
  have f: "evaluateExpression exact_ops (runes ''2+3'') = Some (Returns 5)" by simp
  have g: "listTasksHandler s3
       = [Some \<lparr> ID = 1, Expression = runes ''2+3'', Status = ''completed'', Result = 5,
                 AgentID = 0 \<rparr>]"
    using h3 by (simp add: listTasksHandler_def)
  from a sc b c r1 h1(2) d' h2(2,3) e' g f show ?thesis by auto
qed

end
